theory Spec2Isabelle
  imports Complex_Main
begin

unbundle bit_operations_syntax

section \<open>Python values used by both modules\<close>

text \<open>
  Bytes objects are \<open>string\<close> (a list of 8-bit characters), Python's unbounded integers
  are \<open>int\<close>. An exception that a modelled function can raise is a value of \<open>py_error\<close>:
  the built-in ones, and \<open>InternalError\<close> and \<open>OperationalError\<close> of \<open>psycopg.errors\<close> with
  their message.
\<close>

datatype py_error =
    KeyError
  | IndexError
  | ValueError
  | AssertionError
  | InternalError string
  | OperationalError string

section \<open>\<open>psycopg/_preparing.py\<close>: the cache of prepared statements\<close>

subsection \<open>Data\<close>

text \<open>\<open>class Prepare(IntEnum)\<close>, in the order of the source.\<close>

datatype Prepare = NO | YES | SHOULD

text \<open>
  \<open>Key = Tuple[bytes, Tuple[int, ...]]\<close> and \<open>Value = Union[int, bytes]\<close>: the
  \<open>isinstance\<close> tests of the source are the two constructors of \<open>Value\<close>.
\<close>

type_synonym Key = "string \<times> int list"

datatype Value = Count int | Name string

text \<open>
  Modelled from the spec: the class \<open>ExecStatus\<close> of \<open>psycopg.pq\<close> and the result
  object \<open>PGresult\<close> are imported by the module and not part of it. The spec gives a
  result summary as a status among CommandOk, TuplesOk and Other, with an optional
  command tag; the module reads exactly the attributes \<open>status\<close> and \<open>command_status\<close>.
\<close>

datatype ExecStatus = COMMAND_OK | TUPLES_OK | OTHER_STATUS

record PGresult =
  status :: ExecStatus
  command_status :: "string option"

text \<open>
  Modelled from the spec: \<open>PostgresQuery\<close> is imported from \<open>psycopg._queries\<close>; the
  module reads its attributes \<open>query\<close> and \<open>types\<close> only (the fingerprint of the spec).
\<close>

record PostgresQuery =
  query :: string
  types :: "int list"

text \<open>
  The attributes of \<open>PrepareManager\<close>. \<open>_prepared\<close> is an \<open>OrderedDict\<close>: an association
  list in iteration order, the oldest entry first. \<open>_prepared_idx\<close> starts at 0 and is
  only incremented or set to 0, hence a natural number.
\<close>

record PrepareManager =
  prepare_threshold :: "int option"
  prepared_max :: int
  prepared :: "(Key \<times> Value) list"
  prepared_idx :: nat

text \<open>\<open>__init__\<close>, with the two class attributes given by the configuration.\<close>

definition init :: "int option \<Rightarrow> int \<Rightarrow> PrepareManager" where
  "init threshold pmax =
     \<lparr>prepare_threshold = threshold, prepared_max = pmax, prepared = [], prepared_idx = 0\<rparr>"

subsection \<open>The operations of \<open>OrderedDict\<close> the module uses\<close>

text \<open>\<open>d.get(k, default)\<close> and \<open>k in d\<close> are \<open>map_of\<close>.\<close>

definition od_get :: "('k \<times> 'v) list \<Rightarrow> 'k \<Rightarrow> 'v \<Rightarrow> 'v" where
  "od_get d k dflt = (case map_of d k of None \<Rightarrow> dflt | Some v \<Rightarrow> v)"

text \<open>\<open>d[k] = v\<close>: an existing key keeps its position, a new key goes to the end.\<close>

fun od_set :: "('k \<times> 'v) list \<Rightarrow> 'k \<Rightarrow> 'v \<Rightarrow> ('k \<times> 'v) list" where
  "od_set [] k v = [(k, v)]"
| "od_set (p # ps) k v = (if fst p = k then (k, v) # ps else p # od_set ps k v)"

text \<open>\<open>d.move_to_end(k)\<close>: raises \<open>KeyError\<close> for a missing key.\<close>

definition od_move_to_end :: "('k \<times> 'v) list \<Rightarrow> 'k \<Rightarrow> py_error + ('k \<times> 'v) list" where
  "od_move_to_end d k =
     (case map_of d k of
        None \<Rightarrow> Inl KeyError
      | Some v \<Rightarrow> Inr (filter (\<lambda>p. fst p \<noteq> k) d @ [(k, v)]))"

text \<open>\<open>d.popitem(last=False)\<close>: removes and returns the oldest entry, \<open>KeyError\<close> when empty.\<close>

definition od_popitem_first ::
  "('k \<times> 'v) list \<Rightarrow> py_error + (('k \<times> 'v) \<times> ('k \<times> 'v) list)" where
  "od_popitem_first d = (case d of [] \<Rightarrow> Inl KeyError | p # ps \<Rightarrow> Inr (p, ps))"

subsection \<open>Names of prepared statements\<close>

text \<open>The decimal digits of a non-negative integer, as \<open>str\<close> and an f-string print it.\<close>

definition digit_char :: "nat \<Rightarrow> char" where
  "digit_char d = char_of (48 + d)"

fun str_of_nat :: "nat \<Rightarrow> string" where
  "str_of_nat n =
     (if n < 10 then [digit_char n] else str_of_nat (n div 10) @ [digit_char (n mod 10)])"

declare str_of_nat.simps [simp del]

text \<open>\<open>f"_pg3_{self._prepared_idx}".encode()\<close>\<close>

definition pg3_name :: "nat \<Rightarrow> string" where
  "pg3_name idx = ''_pg3_'' @ str_of_nat idx"

subsection \<open>The methods\<close>

definition key :: "PostgresQuery \<Rightarrow> Key" where
  "key q = (query q, types q)"

text \<open>
  \<open>get(query, prepare)\<close>: returns the pair of the source and the manager, whose counter
  a \<open>SHOULD\<close> answer has incremented. \<open>prepare\<close> is \<open>Optional[bool]\<close>.
\<close>

definition get ::
  "PrepareManager \<Rightarrow> PostgresQuery \<Rightarrow> bool option \<Rightarrow> (Prepare \<times> string) \<times> PrepareManager" where
  "get pm q prepare =
     (case prepare_threshold pm of
        None \<Rightarrow> ((NO, ''''), pm)
      | Some threshold \<Rightarrow>
          if prepare = Some False then ((NO, ''''), pm)
          else
            (case od_get (prepared pm) (key q) (Count 0) of
               Name n \<Rightarrow> ((YES, n), pm)
             | Count v \<Rightarrow>
                 if v \<ge> threshold \<or> prepare = Some True
                 then ((SHOULD, pg3_name (prepared_idx pm)),
                       pm\<lparr>prepared_idx := prepared_idx pm + 1\<rparr>)
                 else ((NO, ''''), pm)))"

text \<open>
  The test of \<open>should_discard\<close> on one result: the status is \<open>COMMAND_OK\<close> and the command
  status is non-empty and starts with \<open>b"DROP "\<close> or is \<open>b"ROLLBACK"\<close>.
\<close>

definition startswith :: "string \<Rightarrow> string \<Rightarrow> bool" where
  "startswith s p = (take (length p) s = p)"

definition discards :: "PGresult \<Rightarrow> bool" where
  "discards r =
     (if status r \<noteq> COMMAND_OK then False
      else
        (case command_status r of
           None \<Rightarrow> False
         | Some cmdstat \<Rightarrow>
             cmdstat \<noteq> [] \<and> (startswith cmdstat ''DROP '' \<or> cmdstat = ''ROLLBACK'')))"

text \<open>
  \<open>should_discard(prep, results)\<close>: the loop returns at the first result that passes the
  test, after clearing the dictionary.
\<close>

definition should_discard ::
  "PrepareManager \<Rightarrow> Prepare \<Rightarrow> PGresult list \<Rightarrow> string option \<times> PrepareManager" where
  "should_discard pm prep results =
     (if prepared pm \<noteq> [] \<or> prep = SHOULD then
        (if list_ex discards results
         then (Some ''DEALLOCATE ALL'', pm\<lparr>prepared := []\<rparr>)
         else (None, pm))
      else (None, pm))"

text \<open>
  \<open>setdefault(query, prep, name)\<close>: \<open>None\<close> when the key is in the cache (its value
  updated, the entry moved to the end), the pair to insert otherwise.
\<close>

definition setdefault ::
  "PrepareManager \<Rightarrow> PostgresQuery \<Rightarrow> Prepare \<Rightarrow> string
     \<Rightarrow> py_error + ((Key \<times> Value) option \<times> PrepareManager)" where
  "setdefault pm q prep name =
     (let k = key q in
      case map_of (prepared pm) k of
        Some old \<Rightarrow>
          (let d = (case old of
                      Count c \<Rightarrow>
                        if prep = SHOULD then od_set (prepared pm) k (Name name)
                        else od_set (prepared pm) k (Count (c + 1))
                    | Name _ \<Rightarrow> prepared pm)
           in case od_move_to_end d k of
                Inl e \<Rightarrow> Inl e
              | Inr d' \<Rightarrow> Inr (None, pm\<lparr>prepared := d'\<rparr>))
      | None \<Rightarrow> Inr (Some (k, if prep = SHOULD then Name name else Count 1), pm))"

text \<open>\<open>maintain(query, results, prep, name)\<close>: the command to send, if any, and the manager.\<close>

definition maintain ::
  "PrepareManager \<Rightarrow> PostgresQuery \<Rightarrow> PGresult list \<Rightarrow> Prepare \<Rightarrow> string
     \<Rightarrow> py_error + (string option \<times> PrepareManager)" where
  "maintain pm q results prep name =
     (if prepare_threshold pm = None then Inr (None, pm)
      else
        (case should_discard pm prep results of
           (Some cmd, pm1) \<Rightarrow> Inr (Some cmd, pm1)
         | (None, pm1) \<Rightarrow>
             (case setdefault pm1 q prep name of
                Inl e \<Rightarrow> Inl e
              | Inr (None, pm2) \<Rightarrow> Inr (None, pm2)
              | Inr (Some (k, v), pm2) \<Rightarrow>
                  if length results \<noteq> 1 then Inr (None, pm2)
                  else if status (results ! 0) \<noteq> COMMAND_OK \<and> status (results ! 0) \<noteq> TUPLES_OK
                  then Inr (None, pm2)
                  else
                    (let pm3 = pm2\<lparr>prepared := od_set (prepared pm2) k v\<rparr> in
                     if int (length (prepared pm3)) \<le> prepared_max pm3 then Inr (None, pm3)
                     else
                       (case od_popitem_first (prepared pm3) of
                          Inl e \<Rightarrow> Inl e
                        | Inr ((_, old_val), rest) \<Rightarrow>
                            (case old_val of
                               Name n \<Rightarrow> Inr (Some (''DEALLOCATE '' @ n), pm3\<lparr>prepared := rest\<rparr>)
                             | Count _ \<Rightarrow> Inr (None, pm3\<lparr>prepared := rest\<rparr>)))))))"

text \<open>\<open>clear()\<close>\<close>

definition clear :: "PrepareManager \<Rightarrow> string option \<times> PrepareManager" where
  "clear pm =
     (if prepared_idx pm \<noteq> 0
      then (Some ''DEALLOCATE ALL'', pm\<lparr>prepared := [], prepared_idx := 0\<rparr>)
      else (None, pm))"

subsection \<open>The branch conditions of \<open>maintain\<close>, named\<close>

text \<open>
  The guard of \<open>should_discard\<close> together with its loop: the call clears the cache.
\<close>

definition invalidates :: "PrepareManager \<Rightarrow> Prepare \<Rightarrow> PGresult list \<Rightarrow> bool" where
  "invalidates pm prep results = ((prepared pm \<noteq> [] \<or> prep = SHOULD) \<and> list_ex discards results)"

text \<open>The two tests of \<open>maintain\<close> before it inserts a key that is not in the cache.\<close>

definition eligible :: "PGresult list \<Rightarrow> bool" where
  "eligible results =
     (length results = 1 \<and> (status (results ! 0) = COMMAND_OK \<or> status (results ! 0) = TUPLES_OK))"

text \<open>The value \<open>setdefault\<close> leaves at a key that is in the cache.\<close>

definition touched_value :: "Value \<Rightarrow> Prepare \<Rightarrow> string \<Rightarrow> Value" where
  "touched_value old prep name =
     (case old of Count c \<Rightarrow> if prep = SHOULD then Name name else Count (c + 1) | Name n \<Rightarrow> Name n)"

text \<open>The value \<open>setdefault\<close> proposes for a key that is not in the cache.\<close>

definition new_value :: "Prepare \<Rightarrow> string \<Rightarrow> Value" where
  "new_value prep name = (if prep = SHOULD then Name name else Count 1)"

text \<open>The command \<open>maintain\<close> returns for an evicted value.\<close>

definition dealloc :: "Value \<Rightarrow> string option" where
  "dealloc v = (case v of Name n \<Rightarrow> Some (''DEALLOCATE '' @ n) | Count _ \<Rightarrow> None)"

subsection \<open>Sequences of calls on one manager\<close>

text \<open>
  The public operations, and what each call hands back to the caller. A connection
  makes its calls one after the other; an exception ends the sequence.
\<close>

datatype cache_op =
    OpGet PostgresQuery "bool option"
  | OpMaintain PostgresQuery "PGresult list" Prepare string
  | OpClear

datatype reply = Decision Prepare string | Command "string option"

fun step :: "PrepareManager \<Rightarrow> cache_op \<Rightarrow> py_error + (reply \<times> PrepareManager)" where
  "step pm (OpGet q prepare) =
     (case get pm q prepare of ((d, n), pm') \<Rightarrow> Inr (Decision d n, pm'))"
| "step pm (OpMaintain q results prep name) =
     (case maintain pm q results prep name of
        Inl e \<Rightarrow> Inl e
      | Inr (cmd, pm') \<Rightarrow> Inr (Command cmd, pm'))"
| "step pm OpClear = (case clear pm of (cmd, pm') \<Rightarrow> Inr (Command cmd, pm'))"

fun run :: "PrepareManager \<Rightarrow> cache_op list \<Rightarrow> py_error + (reply list \<times> PrepareManager)" where
  "run pm [] = Inr ([], pm)"
| "run pm (c # cs) =
     (case step pm c of
        Inl e \<Rightarrow> Inl e
      | Inr (r, pm') \<Rightarrow>
          (case run pm' cs of
             Inl e \<Rightarrow> Inl e
           | Inr (rs, pm'') \<Rightarrow> Inr (r # rs, pm'')))"

text \<open>The names handed out by the \<open>SHOULD\<close> answers of a sequence, in order.\<close>

fun new_names :: "reply list \<Rightarrow> string list" where
  "new_names [] = []"
| "new_names (Decision SHOULD n # rs) = n # new_names rs"
| "new_names (_ # rs) = new_names rs"

text \<open>
  Recency, to state which entry is the least recently used: a clock that counts the
  calls, and for each key the time of the last call of \<open>maintain\<close> that inserted the key
  or found it in the cache (the calls that reach \<open>setdefault\<close> and do not return before
  the insertion).
\<close>

fun touches :: "PrepareManager \<Rightarrow> cache_op \<Rightarrow> Key option" where
  "touches pm (OpMaintain q results prep name) =
     (if prepare_threshold pm \<noteq> None \<and> \<not> invalidates pm prep results
         \<and> (map_of (prepared pm) (key q) \<noteq> None \<or> eligible results)
      then Some (key q) else None)"
| "touches pm _ = None"

record traced =
  mgr :: PrepareManager
  clock :: nat
  stamp :: "Key \<Rightarrow> nat"

definition traced_init :: "int option \<Rightarrow> int \<Rightarrow> traced" where
  "traced_init threshold pmax = \<lparr>mgr = init threshold pmax, clock = 0, stamp = (\<lambda>_. 0)\<rparr>"

definition step_traced :: "traced \<Rightarrow> cache_op \<Rightarrow> py_error + (reply \<times> traced)" where
  "step_traced t c =
     (case step (mgr t) c of
        Inl e \<Rightarrow> Inl e
      | Inr (r, pm') \<Rightarrow>
          Inr (r, \<lparr>mgr = pm', clock = clock t + 1,
                   stamp = (case touches (mgr t) c of
                              None \<Rightarrow> stamp t
                            | Some k \<Rightarrow> (stamp t)(k := clock t))\<rparr>))"

fun run_traced :: "traced \<Rightarrow> cache_op list \<Rightarrow> py_error + (reply list \<times> traced)" where
  "run_traced t [] = Inr ([], t)"
| "run_traced t (c # cs) =
     (case step_traced t c of
        Inl e \<Rightarrow> Inl e
      | Inr (r, t') \<Rightarrow>
          (case run_traced t' cs of
             Inl e \<Rightarrow> Inl e
           | Inr (rs, t'') \<Rightarrow> Inr (r # rs, t'')))"

text \<open>
  The invariant of the recency order: along the cache, from the oldest entry to the
  newest, the times of the last touch strictly increase, and all lie in the past.
\<close>

definition recency_ordered :: "traced \<Rightarrow> bool" where
  "recency_ordered t =
     (sorted_wrt (<) (map (\<lambda>p. stamp t (fst p)) (prepared (mgr t)))
      \<and> (\<forall>p \<in> set (prepared (mgr t)). stamp t (fst p) < clock t))"

section \<open>\<open>psycopg/waiting.py\<close>: waiting for a generator\<close>

subsection \<open>Generators and the operating system\<close>

text \<open>
  \<open>Wait\<close> and \<open>Ready\<close> are \<open>IntEnum\<close> classes over \<open>EVENT_READ = 1\<close> and
  \<open>EVENT_WRITE = 2\<close>; the functions compute on them with \<open>&\<close> and \<open>|\<close>, so they are
  integers here.
\<close>

definition EVENT_READ :: int where "EVENT_READ = 1"
definition EVENT_WRITE :: int where "EVENT_WRITE = 2"

text \<open>
  Modelled from the spec: the generators (\<open>PQGen\<close>, \<open>PQGenConn\<close> of \<open>psycopg.abc\<close>) are
  the protocol drivers of the spec, external to the module. A driver is a state and a
  step function: \<open>gen g None\<close> is \<open>next(gen)\<close>, \<open>gen g (Some ready)\<close> is \<open>gen.send(ready)\<close>;
  the step either yields and moves to a new state, or ends with \<open>StopIteration\<close>, whose
  \<open>args\<close> hold the returned value or are empty.
\<close>

datatype ('g, 'y, 'rv) gen_step = Yield 'y 'g | StopIteration "'rv option"

type_synonym ('g, 'y, 'rv) generator = "'g \<Rightarrow> int option \<Rightarrow> ('g, 'y, 'rv) gen_step"

text \<open>
  What a waiting function does: it returns \<open>rv\<close> (\<open>None\<close> for empty \<open>args\<close>), raises, or is
  still blocked in the operating system when the script of reports below ends.
\<close>

datatype 'rv outcome = Returned "'rv option" | Raised py_error | Blocked

text \<open>
  Modelled from the spec: the multiplexor of the operating system and the scheduler are
  external. What happens to the descriptor during one call is a script: \<open>Events ev\<close>
  says that the descriptor now has the events \<open>ev\<close> (read and write bits for the
  selector and the scheduler, epoll bits for epoll), whether anybody waits for them or
  not; \<open>Quiet\<close> is a period without any event that lasts as long as a timeout. A wait
  reports only the events it was registered for and sleeps through the others. A wait
  without timeout sleeps through \<open>Quiet\<close>; a wait with a timeout returns empty.
\<close>

datatype os_report = Quiet | Events int

text \<open>
  Modelled from the spec: the selector is the multiplexor of the host, outside the
  repository. \<open>sel.register(fileno, s)\<close> of the standard library refuses an event mask
  that is empty or has a bit other than read and write with \<open>ValueError\<close>.
\<close>

definition sel_register :: "int \<Rightarrow> int \<Rightarrow> py_error option" where
  "sel_register fileno s =
     (if s = 0 \<or> s AND NOT (EVENT_READ OR EVENT_WRITE) \<noteq> 0 then Some ValueError else None)"

text \<open>
  Modelled from the spec: \<open>sel.select(timeout=timeout)\<close> with the one descriptor
  registered for the events \<open>s\<close> returns the list of ready keys, each with the events
  of the descriptor that are among the registered ones (\<open>events & key.events\<close> in the
  standard library); events that are not registered do not wake it. Without timeout it
  blocks until there is such an event; with a timeout it returns the empty list when
  the timeout passes first. \<open>None\<close> is the end of the script: the call has not returned.
\<close>

fun sel_select ::
  "int \<Rightarrow> int \<Rightarrow> real option \<Rightarrow> os_report list
     \<Rightarrow> ((int \<times> int) list \<times> os_report list) option" where
  "sel_select fileno s timeout [] = None"
| "sel_select fileno s timeout (Events ev # env) =
     (if ev AND s = 0 then sel_select fileno s timeout env
      else Some ([(fileno, ev AND s)], env))"
| "sel_select fileno s timeout (Quiet # env) =
     (case timeout of None \<Rightarrow> sel_select fileno s None env | Some t \<Rightarrow> Some ([], env))"

lemma sel_select_shorter:
  "sel_select fileno s timeout env = Some (rlist, env') \<Longrightarrow> length env' < length env"
  by (induction fileno s timeout env rule: sel_select.induct)
     (auto split: option.splits if_splits)




subsection \<open>\<open>wait_selector\<close>\<close>




subsection \<open>\<open>wait_conn\<close>\<close>

text \<open>\<open>timeout or None\<close>: a timeout of zero is false.\<close>

definition or_None :: "real option \<Rightarrow> real option" where
  "or_None timeout = (case timeout of None \<Rightarrow> None | Some t \<Rightarrow> if t = 0 then None else Some t)"

function conn_loop ::
  "('g, int \<times> int, 'rv) generator \<Rightarrow> 'g \<Rightarrow> int \<Rightarrow> int \<Rightarrow> real option \<Rightarrow> os_report list
     \<Rightarrow> 'rv outcome" where
  "conn_loop gen g fileno s timeout env =
     (case sel_register fileno s of
        Some e \<Rightarrow> Raised e
      | None \<Rightarrow>
          (case sel_select fileno s timeout env of
             None \<Rightarrow> Blocked
           | Some (rlist, env') \<Rightarrow>
               (case rlist of
                  [] \<Rightarrow> Raised (OperationalError ''timeout expired'')
                | (_, ready) # _ \<Rightarrow>
                    (case gen g (Some ready) of
                       StopIteration rv \<Rightarrow> Returned rv
                     | Yield (fileno', s') g' \<Rightarrow> conn_loop gen g' fileno' s' timeout env'))))"
  by pat_completeness auto
termination
  by (relation "measure (\<lambda>(gen, g, fileno, s, timeout, env). length env)")
     (auto dest: sel_select_shorter)

declare conn_loop.simps [simp del]

definition wait_conn ::
  "('g, int \<times> int, 'rv) generator \<Rightarrow> 'g \<Rightarrow> real option \<Rightarrow> os_report list \<Rightarrow> 'rv outcome" where
  "wait_conn gen g timeout env =
     (let timeout = or_None timeout in
      case gen g None of
        StopIteration rv \<Rightarrow> Returned rv
      | Yield (fileno, s) g' \<Rightarrow> conn_loop gen g' fileno s timeout env)"

subsection \<open>\<open>wait_async\<close> and \<open>wait_conn_async\<close>\<close>

text \<open>
  The futures of one round, each named by the value its callback sets as its result:
  \<open>rf\<close> by \<open>Ready.R\<close> when \<open>s & Wait.R\<close>, then \<open>wf\<close> by \<open>Ready.W\<close> when \<open>s & Wait.W\<close>.
\<close>

definition futures :: "int \<Rightarrow> int list" where
  "futures s =
     (if s AND EVENT_READ \<noteq> 0 then [EVENT_READ] else [])
     @ (if s AND EVENT_WRITE \<noteq> 0 then [EVENT_WRITE] else [])"

text \<open>
  Modelled from the spec: \<open>asyncio.wait(fs, timeout=timeout, return_when=FIRST_COMPLETED)\<close>
  of the scheduler, outside the repository. The event loop calls the reader callback
  when the descriptor is readable and the writer callback when it is writable, so a
  report completes the futures of \<open>fs\<close> whose bit it has. The call returns the done
  futures as soon as there is one, or none when the timeout elapses first.
\<close>

fun asyncio_wait ::
  "int list \<Rightarrow> real option \<Rightarrow> os_report list \<Rightarrow> (int list \<times> os_report list) option" where
  "asyncio_wait fs timeout [] = None"
| "asyncio_wait fs timeout (Events ev # env) =
     (if filter (\<lambda>f. f AND ev \<noteq> 0) fs = [] then asyncio_wait fs timeout env
      else Some (filter (\<lambda>f. f AND ev \<noteq> 0) fs, env))"
| "asyncio_wait fs timeout (Quiet # env) =
     (case timeout of None \<Rightarrow> asyncio_wait fs None env | Some t \<Rightarrow> Some ([], env))"

lemma asyncio_wait_shorter:
  "asyncio_wait fs timeout env = Some (done, env') \<Longrightarrow> length env' < length env"
  by (induction fs timeout env rule: asyncio_wait.induct) (auto split: option.splits if_splits)

text \<open>\<open>ready = 0; while done: ready |= done.pop().result()\<close>\<close>

definition merge_ready :: "int list \<Rightarrow> int" where
  "merge_ready done = fold (\<lambda>f ready. ready OR f) done 0"

text \<open>The text of an integer in an f-string.\<close>

definition str_of_int :: "int \<Rightarrow> string" where
  "str_of_int i = (if i < 0 then ''-'' @ str_of_nat (nat (- i)) else str_of_nat (nat i))"

function async_loop ::
  "('g, int, 'rv) generator \<Rightarrow> 'g \<Rightarrow> int \<Rightarrow> int \<Rightarrow> os_report list \<Rightarrow> 'rv outcome" where
  "async_loop gen g fileno s env =
     (let fs = futures s in
      if fs = [] then Raised (InternalError (''bad poll status: '' @ str_of_int s))
      else
        (case asyncio_wait fs None env of
           None \<Rightarrow> Blocked
         | Some (done, env') \<Rightarrow>
             (case gen g (Some (merge_ready done)) of
                StopIteration rv \<Rightarrow> Returned rv
              | Yield s' g' \<Rightarrow> async_loop gen g' fileno s' env')))"
  by pat_completeness auto
termination
  by (relation "measure (\<lambda>(gen, g, fileno, s, env). length env)")
     (auto dest: asyncio_wait_shorter)

declare async_loop.simps [simp del]

definition wait_async ::
  "('g, int, 'rv) generator \<Rightarrow> 'g \<Rightarrow> int \<Rightarrow> os_report list \<Rightarrow> 'rv outcome" where
  "wait_async gen g fileno env =
     (case gen g None of
        StopIteration rv \<Rightarrow> Returned rv
      | Yield s g' \<Rightarrow> async_loop gen g' fileno s env)"

function conn_async_loop ::
  "('g, int \<times> int, 'rv) generator \<Rightarrow> 'g \<Rightarrow> int \<Rightarrow> int \<Rightarrow> real option \<Rightarrow> os_report list
     \<Rightarrow> 'rv outcome" where
  "conn_async_loop gen g fileno s timeout env =
     (let fs = futures s in
      if fs = [] then Raised (InternalError (''bad poll status: '' @ str_of_int s))
      else
        (case asyncio_wait fs timeout env of
           None \<Rightarrow> Blocked
         | Some (done, env') \<Rightarrow>
             if done = [] then Raised (OperationalError ''timeout expired'')
             else
               (case gen g (Some (merge_ready done)) of
                  StopIteration rv \<Rightarrow> Returned rv
                | Yield (fileno', s') g' \<Rightarrow> conn_async_loop gen g' fileno' s' timeout env')))"
  by pat_completeness auto
termination
  by (relation "measure (\<lambda>(gen, g, fileno, s, timeout, env). length env)")
     (auto dest: asyncio_wait_shorter)

declare conn_async_loop.simps [simp del]

definition wait_conn_async ::
  "('g, int \<times> int, 'rv) generator \<Rightarrow> 'g \<Rightarrow> real option \<Rightarrow> os_report list \<Rightarrow> 'rv outcome" where
  "wait_conn_async gen g timeout env =
     (let timeout = or_None timeout in
      case gen g None of
        StopIteration rv \<Rightarrow> Returned rv
      | Yield (fileno, s) g' \<Rightarrow> conn_async_loop gen g' fileno s timeout env)"

subsection \<open>\<open>wait_epoll\<close>\<close>













subsection \<open>A driver that checks what it is resumed with\<close>


subsection \<open>Example drivers\<close>

text \<open>
  Two drivers for the examples: each asks to read (the second on descriptor 5), and
  when resumed returns the readiness it was resumed with.
\<close>

definition read_once :: "(nat, int, int) generator" where
  "read_once g ready = (case g of 0 \<Rightarrow> Yield EVENT_READ 1 | Suc _ \<Rightarrow> StopIteration ready)"

definition conn_read_once :: "(nat, int \<times> int, int) generator" where
  "conn_read_once g ready =
     (case g of 0 \<Rightarrow> Yield (5, EVENT_READ) 1 | Suc _ \<Rightarrow> StopIteration ready)"

section \<open>Properties of the cache of prepared statements\<close>

subsection \<open>The dictionary operations\<close>

lemma map_of_od_set: "map_of (od_set d k v) = (map_of d)(k \<mapsto> v)"
  by (induction d) auto

lemma filter_od_set:
  "map_of d k \<noteq> None \<Longrightarrow> filter (\<lambda>p. fst p \<noteq> k) (od_set d k v) = filter (\<lambda>p. fst p \<noteq> k) d"
  by (induction d) auto

lemma od_set_new: "map_of d k = None \<Longrightarrow> od_set d k v = d @ [(k, v)]"
  by (induction d) (auto split: if_splits)

subsection \<open>\<open>maintain\<close> never raises: its result, branch by branch\<close>

lemma setdefault_present:
  assumes "map_of (prepared pm) (key q) = Some old"
  shows "setdefault pm q prep name =
           Inr (None, pm\<lparr>prepared := filter (\<lambda>p. fst p \<noteq> key q) (prepared pm)
                                      @ [(key q, touched_value old prep name)]\<rparr>)"
  using assms
  by (cases old)
     (simp_all add: setdefault_def od_move_to_end_def map_of_od_set filter_od_set
        touched_value_def Let_def)

lemma setdefault_absent:
  assumes "map_of (prepared pm) (key q) = None"
  shows "setdefault pm q prep name = Inr (Some (key q, new_value prep name), pm)"
  using assms by (simp add: setdefault_def new_value_def Let_def)

lemma should_discard_eq:
  "should_discard pm prep results =
     (if invalidates pm prep results
      then (Some ''DEALLOCATE ALL'', pm\<lparr>prepared := []\<rparr>) else (None, pm))"
  by (simp add: should_discard_def invalidates_def)

lemma maintain_eq:
  "maintain pm q results prep name =
     (if prepare_threshold pm = None then Inr (None, pm)
      else if invalidates pm prep results then Inr (Some ''DEALLOCATE ALL'', pm\<lparr>prepared := []\<rparr>)
      else
        (case map_of (prepared pm) (key q) of
           Some old \<Rightarrow>
             Inr (None, pm\<lparr>prepared := filter (\<lambda>p. fst p \<noteq> key q) (prepared pm)
                                        @ [(key q, touched_value old prep name)]\<rparr>)
         | None \<Rightarrow>
             if \<not> eligible results then Inr (None, pm)
             else if int (length (prepared pm)) + 1 \<le> prepared_max pm
             then Inr (None, pm\<lparr>prepared := prepared pm @ [(key q, new_value prep name)]\<rparr>)
             else Inr (dealloc (snd (hd (prepared pm @ [(key q, new_value prep name)]))),
                       pm\<lparr>prepared := tl (prepared pm @ [(key q, new_value prep name)])\<rparr>)))"
proof (cases "prepare_threshold pm = None \<or> invalidates pm prep results")
  case True
  then show ?thesis by (auto simp: maintain_def should_discard_eq)
next
  case False
  then have a: "prepare_threshold pm \<noteq> None" and b: "\<not> invalidates pm prep results" by auto
  show ?thesis
  proof (cases "map_of (prepared pm) (key q)")
    case (Some old)
    then show ?thesis using a b by (auto simp: maintain_def should_discard_eq setdefault_present)
  next
    case None
    show ?thesis
    proof (cases "prepared pm")
      case Nil
      then show ?thesis using a b None
        by (auto simp: maintain_def should_discard_eq setdefault_absent od_set_new eligible_def
          od_popitem_first_def dealloc_def Let_def split: Value.splits)
    next
      case (Cons p ps)
      then show ?thesis using a b None
        by (auto simp: maintain_def should_discard_eq setdefault_absent od_set_new eligible_def
          od_popitem_first_def dealloc_def Let_def split: Value.splits prod.splits)
    qed
  qed
qed

lemma maintain_total: "\<exists>cmd pm'. maintain pm q results prep name = Inr (cmd, pm')"
  by (simp add: maintain_eq split: option.splits)

lemma get_cases:
  "get pm q prepare = ((d, n), pm') \<Longrightarrow>
     (d \<noteq> SHOULD \<and> pm' = pm) \<or>
     (d = SHOULD \<and> n = pg3_name (prepared_idx pm)
        \<and> pm' = pm\<lparr>prepared_idx := prepared_idx pm + 1\<rparr>)"
  by (auto simp: get_def split: option.splits if_splits Value.splits)

lemma step_total: "\<exists>r pm'. step pm c = Inr (r, pm')"
proof (cases c)
  case (OpGet q p)
  then show ?thesis by (simp split: prod.splits)
next
  case (OpMaintain q results prep name)
  then show ?thesis using maintain_total [of pm q results prep name] by auto
next
  case OpClear
  then show ?thesis by (simp split: prod.splits)
qed

lemma run_total: "\<exists>replies pm'. run pm cs = Inr (replies, pm')"
proof (induction cs arbitrary: pm)
  case Nil
  then show ?case by simp
next
  case (Cons c cs)
  obtain r pm1 where "step pm c = Inr (r, pm1)" using step_total by blast
  moreover obtain rs pm2 where "run pm1 cs = Inr (rs, pm2)" using Cons.IH by blast
  ultimately show ?case by simp
qed

subsection \<open>The decision of \<open>get\<close>\<close>

text \<open>
  C6, as amended. With preparing enabled and the override not \<open>False\<close>, for a
  fingerprint that is not yet prepared: \<open>get\<close> reads its count with the default 0, so
  a fingerprint that is not in the cache counts as seen 0 times; the answer is \<open>SHOULD\<close>
  with the name made from the counter (which is then incremented) exactly when the
  count has reached the threshold or the override is \<open>True\<close>, and \<open>NO\<close> otherwise.
\<close>

theorem get_should_iff:
  assumes "prepare_threshold pm = Some T"
    and "prepare \<noteq> Some False"
  shows "(map_of (prepared pm) (key q) = None \<longrightarrow>
            get pm q prepare =
              (if T \<le> 0 \<or> prepare = Some True
               then ((SHOULD, pg3_name (prepared_idx pm)),
                     pm\<lparr>prepared_idx := prepared_idx pm + 1\<rparr>)
               else ((NO, ''''), pm)))
       \<and> (\<forall>n. map_of (prepared pm) (key q) = Some (Count n) \<longrightarrow>
            get pm q prepare =
              (if T \<le> n \<or> prepare = Some True
               then ((SHOULD, pg3_name (prepared_idx pm)),
                     pm\<lparr>prepared_idx := prepared_idx pm + 1\<rparr>)
               else ((NO, ''''), pm)))"
  using assms by (simp add: get_def od_get_def)

theorem get_should_iff_witness:
  "get \<lparr>prepare_threshold = Some 3, prepared_max = 1,
        prepared = [((''SELECT $1'', [23]), Count 3)], prepared_idx = 0\<rparr>
       \<lparr>query = ''SELECT $1'', types = [23]\<rparr> None =
     ((SHOULD, ''_pg3_0''),
      \<lparr>prepare_threshold = Some 3, prepared_max = 1,
        prepared = [((''SELECT $1'', [23]), Count 3)], prepared_idx = 1\<rparr>)
   \<and> get \<lparr>prepare_threshold = Some 3, prepared_max = 1,
        prepared = [((''SELECT $1'', [23]), Count 2)], prepared_idx = 0\<rparr>
       \<lparr>query = ''SELECT $1'', types = [23]\<rparr> None =
     ((NO, ''''),
      \<lparr>prepare_threshold = Some 3, prepared_max = 1,
        prepared = [((''SELECT $1'', [23]), Count 2)], prepared_idx = 0\<rparr>)"
proof -
  have n: "pg3_name 0 = ''_pg3_0''" by code_simp
  show ?thesis
    using n
      get_should_iff [of "\<lparr>prepare_threshold = Some 3, prepared_max = 1,
        prepared = [((''SELECT $1'', [23]), Count 3)], prepared_idx = 0\<rparr>" 3 None
        "\<lparr>query = ''SELECT $1'', types = [23]\<rparr>"]
      get_should_iff [of "\<lparr>prepare_threshold = Some 3, prepared_max = 1,
        prepared = [((''SELECT $1'', [23]), Count 2)], prepared_idx = 0\<rparr>" 3 None
        "\<lparr>query = ''SELECT $1'', types = [23]\<rparr>"]
    by (simp add: key_def)
qed

text \<open>
  C6 as stated fails: a fingerprint that was never recorded, asked with the override
  \<open>True\<close> and a threshold of 5, gets \<open>SHOULD\<close> and the first name, not \<open>NO\<close>.
\<close>

theorem get_unseen_override_counterexample:
  "map_of (prepared (init (Some 5) 100)) (key \<lparr>query = ''SELECT 1'', types = []\<rparr>) = None \<and>
   fst (get (init (Some 5) 100) \<lparr>query = ''SELECT 1'', types = []\<rparr> (Some True))
     = (SHOULD, ''_pg3_0'')"
proof -
  have n: "pg3_name 0 = ''_pg3_0''" by code_simp
  show ?thesis using n by (simp add: get_def init_def od_get_def key_def)
qed

subsection \<open>Invalidation\<close>

lemma startswith_iff: "startswith s p \<longleftrightarrow> (\<exists>rest. s = p @ rest)"
  unfolding startswith_def
  by (metis append_eq_conv_conj append_take_drop_id)

lemma discards_iff:
  "discards r \<longleftrightarrow>
     status r = COMMAND_OK \<and>
     (\<exists>t. command_status r = Some t \<and> ((\<exists>rest. t = ''DROP '' @ rest) \<or> t = ''ROLLBACK''))"
  unfolding discards_def startswith_iff
  by (auto split: option.splits)

text \<open>
  C9, as amended. Matching is on the exact bytes, with no normalisation. The check is
  made only when the cache is not empty or the call records a promotion; then, and
  only then, the results make \<open>should_discard\<close> answer \<open>DEALLOCATE ALL\<close> and clear the
  cache exactly when one of them has status \<open>COMMAND_OK\<close> and a command tag that begins
  with the five bytes \<open>DROP\<close> and a space, or is \<open>ROLLBACK\<close>; in every other case it
  answers nothing and changes nothing.
\<close>

theorem should_discard_iff:
  "(fst (should_discard pm prep results) = Some ''DEALLOCATE ALL'' \<longleftrightarrow>
      (prepared pm \<noteq> [] \<or> prep = SHOULD)
      \<and> (\<exists>r \<in> set results. status r = COMMAND_OK \<and>
             (\<exists>t. command_status r = Some t \<and>
                ((\<exists>rest. t = ''DROP '' @ rest) \<or> t = ''ROLLBACK''))))
   \<and> should_discard pm prep results =
       (if (prepared pm \<noteq> [] \<or> prep = SHOULD)
           \<and> (\<exists>r \<in> set results. status r = COMMAND_OK \<and>
                  (\<exists>t. command_status r = Some t \<and>
                     ((\<exists>rest. t = ''DROP '' @ rest) \<or> t = ''ROLLBACK'')))
        then (Some ''DEALLOCATE ALL'', pm\<lparr>prepared := []\<rparr>)
        else (None, pm))"
  by (auto simp: should_discard_def list_ex_iff discards_iff)

theorem should_discard_iff_witness:
  "fst (should_discard
          \<lparr>prepare_threshold = Some 5, prepared_max = 100,
            prepared = [((''SELECT 1'', []), Count 1)], prepared_idx = 0\<rparr> NO
          [\<lparr>status = COMMAND_OK, command_status = Some ''DROP TABLE''\<rparr>])
     = Some ''DEALLOCATE ALL'' \<and>
   fst (should_discard
          \<lparr>prepare_threshold = Some 5, prepared_max = 100,
            prepared = [((''SELECT 1'', []), Count 1)], prepared_idx = 0\<rparr> NO
          [\<lparr>status = COMMAND_OK, command_status = Some ''rollback''\<rparr>])
     \<noteq> Some ''DEALLOCATE ALL'' \<and>
   fst (should_discard (init (Some 5) 100) NO
          [\<lparr>status = COMMAND_OK, command_status = Some ''ROLLBACK''\<rparr>])
     \<noteq> Some ''DEALLOCATE ALL'' \<and>
   fst (should_discard (init (Some 5) 100) SHOULD
          [\<lparr>status = COMMAND_OK, command_status = Some ''ROLLBACK''\<rparr>])
     = Some ''DEALLOCATE ALL''"
proof -
  have "''DROP TABLE'' = ''DROP '' @ ''TABLE''" by simp
  then show ?thesis
    using should_discard_iff [of "\<lparr>prepare_threshold = Some 5, prepared_max = 100,
            prepared = [((''SELECT 1'', []), Count 1)], prepared_idx = 0\<rparr>" NO
          "[\<lparr>status = COMMAND_OK, command_status = Some ''DROP TABLE''\<rparr>]"]
      should_discard_iff [of "\<lparr>prepare_threshold = Some 5, prepared_max = 100,
            prepared = [((''SELECT 1'', []), Count 1)], prepared_idx = 0\<rparr>" NO
          "[\<lparr>status = COMMAND_OK, command_status = Some ''rollback''\<rparr>]"]
      should_discard_iff [of "init (Some 5) 100" NO
          "[\<lparr>status = COMMAND_OK, command_status = Some ''ROLLBACK''\<rparr>]"]
      should_discard_iff [of "init (Some 5) 100" SHOULD
          "[\<lparr>status = COMMAND_OK, command_status = Some ''ROLLBACK''\<rparr>]"]
    by (simp add: init_def)
qed

text \<open>
  C9 as stated fails at the tag it names: the tag of exactly the bytes \<open>DROP\<close>, whose
  leading token is \<open>DROP\<close>, does not invalidate a non-empty cache.
\<close>

theorem bare_drop_counterexample:
  "should_discard
     \<lparr>prepare_threshold = Some 5, prepared_max = 100,
       prepared = [((''SELECT 1'', []), Count 1)], prepared_idx = 0\<rparr> NO
     [\<lparr>status = COMMAND_OK, command_status = Some ''DROP''\<rparr>]
   = (None, \<lparr>prepare_threshold = Some 5, prepared_max = 100,
              prepared = [((''SELECT 1'', []), Count 1)], prepared_idx = 0\<rparr>)"
  by (simp add: should_discard_def discards_def startswith_def)

text \<open>
  C2, as amended. With preparing enabled, and the cache not empty or the call recording
  a promotion, a result with status \<open>COMMAND_OK\<close> whose tag begins with \<open>DROP\<close> and a
  space or is \<open>ROLLBACK\<close> makes \<open>maintain\<close> clear the cache and return \<open>DEALLOCATE ALL\<close>,
  with nothing else changed (the counter of names included): whatever the threshold,
  the counts, the query and the other results are.
\<close>

theorem maintain_invalidation:
  assumes "prepare_threshold pm \<noteq> None"
    and "prepared pm \<noteq> [] \<or> prep = SHOULD"
    and "r \<in> set results"
    and "status r = COMMAND_OK"
    and "command_status r = Some t"
    and "(\<exists>rest. t = ''DROP '' @ rest) \<or> t = ''ROLLBACK''"
  shows "maintain pm q results prep name = Inr (Some ''DEALLOCATE ALL'', pm\<lparr>prepared := []\<rparr>)"
proof -
  have "discards r" using assms(4-6) by (simp add: discards_iff)
  then have "invalidates pm prep results"
    using assms(2,3) by (auto simp: invalidates_def list_ex_iff)
  then show ?thesis using assms(1) by (simp add: maintain_eq)
qed

theorem maintain_invalidation_witness:
  "maintain
     \<lparr>prepare_threshold = Some 5, prepared_max = 100,
       prepared = [((''SELECT 1'', []), Name ''_pg3_0'')], prepared_idx = 1\<rparr>
     \<lparr>query = ''ROLLBACK'', types = []\<rparr>
     [\<lparr>status = COMMAND_OK, command_status = Some ''ROLLBACK''\<rparr>] NO ''''
   = Inr (Some ''DEALLOCATE ALL'',
          \<lparr>prepare_threshold = Some 5, prepared_max = 100, prepared = [], prepared_idx = 1\<rparr>)"
  using maintain_invalidation [of
     "\<lparr>prepare_threshold = Some 5, prepared_max = 100,
       prepared = [((''SELECT 1'', []), Name ''_pg3_0'')], prepared_idx = 1\<rparr>" NO
     "\<lparr>status = COMMAND_OK, command_status = Some ''ROLLBACK''\<rparr>"
     "[\<lparr>status = COMMAND_OK, command_status = Some ''ROLLBACK''\<rparr>]"
     "''ROLLBACK''" "\<lparr>query = ''ROLLBACK'', types = []\<rparr>" "''''"]
  by simp

text \<open>
  C2 as stated fails: on an empty cache, with no promotion, a \<open>ROLLBACK\<close> result clears
  nothing and returns no command; the call goes on and caches the fingerprint.
\<close>

theorem rollback_on_empty_cache_counterexample:
  "maintain (init (Some 5) 100) \<lparr>query = ''ROLLBACK'', types = []\<rparr>
     [\<lparr>status = COMMAND_OK, command_status = Some ''ROLLBACK''\<rparr>] NO ''''
   = Inr (None, \<lparr>prepare_threshold = Some 5, prepared_max = 100,
                  prepared = [((''ROLLBACK'', []), Count 1)], prepared_idx = 0\<rparr>)"
  by (simp add: maintain_eq init_def invalidates_def eligible_def key_def new_value_def)

subsection \<open>Counting up to the threshold\<close>

lemma map_of_filter_key: "map_of (filter (\<lambda>p. fst p \<noteq> k) d) k = None"
  by (induction d) auto

lemma map_of_tl_None: "map_of d k = None \<Longrightarrow> map_of (tl d) k = None"
  by (cases d) (auto split: if_splits)

lemma maintain_count:
  assumes th: "prepare_threshold pm \<noteq> None"
    and mx: "1 \<le> prepared_max pm"
    and el: "eligible results"
    and nd: "\<not> list_ex discards results"
    and c: "od_get (prepared pm) (key q) (Count 0) = Count n"
    and z: "n = 0 \<longrightarrow> map_of (prepared pm) (key q) = None"
  shows "\<exists>cmd pm'. maintain pm q results NO name = Inr (cmd, pm')
           \<and> map_of (prepared pm') (key q) = Some (Count (n + 1))
           \<and> prepare_threshold pm' = prepare_threshold pm
           \<and> prepared_max pm' = prepared_max pm
           \<and> prepared_idx pm' = prepared_idx pm"
proof -
  have ni: "\<not> invalidates pm NO results" using nd by (simp add: invalidates_def)
  show ?thesis
  proof (cases "map_of (prepared pm) (key q)")
    case None
    then have n0: "n = 0" using c by (simp add: od_get_def)
    show ?thesis
    proof (cases "int (length (prepared pm)) + 1 \<le> prepared_max pm")
      case True
      then show ?thesis using th ni None el n0
        by (simp add: maintain_eq new_value_def map_add_Some_iff)
    next
      case False
      then have "prepared pm \<noteq> []" using mx by auto
      then have "tl (prepared pm @ [(key q, Count 1)]) = tl (prepared pm) @ [(key q, Count 1)]"
        by simp
      then show ?thesis using th ni None el n0 False
        by (simp add: maintain_eq new_value_def map_add_Some_iff map_of_tl_None)
    qed
  next
    case (Some old)
    then have "old = Count n" using c by (simp add: od_get_def)
    then show ?thesis using th ni Some
      by (simp add: maintain_eq touched_value_def map_add_Some_iff map_of_filter_key)
  qed
qed

lemma run_records:
  assumes "prepare_threshold pm \<noteq> None"
    and "1 \<le> prepared_max pm"
    and "\<forall>results \<in> set rss. eligible results \<and> \<not> list_ex discards results"
    and "od_get (prepared pm) (key q) (Count 0) = Count n"
    and "n = 0 \<longrightarrow> map_of (prepared pm) (key q) = None"
    and "0 \<le> n"
  shows "\<exists>replies pm'.
           run pm (map (\<lambda>results. OpMaintain q results NO '''') rss) = Inr (replies, pm')
           \<and> od_get (prepared pm') (key q) (Count 0) = Count (n + int (length rss))
           \<and> prepare_threshold pm' = prepare_threshold pm
           \<and> prepared_idx pm' = prepared_idx pm"
  using assms
proof (induction rss arbitrary: pm n)
  case Nil
  then show ?case by simp
next
  case (Cons rs rss)
  from maintain_count [of pm rs q n "''''"] Cons.prems
  obtain cmd pm1 where m: "maintain pm q rs NO '''' = Inr (cmd, pm1)"
    and c1: "map_of (prepared pm1) (key q) = Some (Count (n + 1))"
    and t1: "prepare_threshold pm1 = prepare_threshold pm"
    and x1: "prepared_max pm1 = prepared_max pm"
    and i1: "prepared_idx pm1 = prepared_idx pm"
    by auto
  have "\<exists>replies pm'.
           run pm1 (map (\<lambda>results. OpMaintain q results NO '''') rss) = Inr (replies, pm')
           \<and> od_get (prepared pm') (key q) (Count 0) = Count (n + 1 + int (length rss))
           \<and> prepare_threshold pm' = prepare_threshold pm1
           \<and> prepared_idx pm' = prepared_idx pm1"
    using Cons.prems c1 t1 x1
    by (intro Cons.IH) (auto simp: od_get_def)
  then show ?case using m t1 i1 by (auto simp: add.assoc add.commute)
qed

text \<open>
  C1, as amended. With the threshold \<open>T\<close>, a capacity of at least 1 and a fingerprint
  that is not in the cache: after any number of calls of \<open>maintain\<close> for it, each with
  the decision \<open>NO\<close> and one single result of status \<open>COMMAND_OK\<close> or \<open>TUPLES_OK\<close>
  that is not an invalidating one, \<open>get\<close> without override answers \<open>NO\<close> while the
  number of calls is below \<open>T\<close> (so after \<open>T - 1\<close> of them) and \<open>SHOULD\<close>, with the name
  made from the counter, from the \<open>T\<close>-th call on. No call raises.
\<close>

theorem threshold_promotion:
  assumes "prepare_threshold pm = Some T"
    and "1 \<le> prepared_max pm"
    and "map_of (prepared pm) (key q) = None"
    and "\<forall>results \<in> set rss. eligible results \<and> \<not> list_ex discards results"
  shows "\<exists>replies pm'.
           run pm (map (\<lambda>results. OpMaintain q results NO '''') rss) = Inr (replies, pm')
           \<and> (int (length rss) < T \<longrightarrow> fst (get pm' q None) = (NO, ''''))
           \<and> (T \<le> int (length rss) \<longrightarrow>
                  fst (get pm' q None) = (SHOULD, pg3_name (prepared_idx pm)))"
proof -
  from run_records [of pm rss q 0] assms
  obtain replies pm' where
    r: "run pm (map (\<lambda>results. OpMaintain q results NO '''') rss) = Inr (replies, pm')"
    and c: "od_get (prepared pm') (key q) (Count 0) = Count (int (length rss))"
    and t: "prepare_threshold pm' = Some T"
    and i: "prepared_idx pm' = prepared_idx pm"
    by (auto simp: od_get_def)
  show ?thesis using r c t i by (auto simp: get_def)
qed

theorem threshold_promotion_witness:
  "(\<exists>replies pm'.
      run (init (Some 3) 1)
        (map (\<lambda>results. OpMaintain \<lparr>query = ''SELECT $1'', types = [23]\<rparr> results NO '''')
           [[\<lparr>status = COMMAND_OK, command_status = Some ''SELECT 1''\<rparr>],
            [\<lparr>status = TUPLES_OK, command_status = Some ''SELECT 1''\<rparr>]])
        = Inr (replies, pm')
      \<and> fst (get pm' \<lparr>query = ''SELECT $1'', types = [23]\<rparr> None) = (NO, ''''))
   \<and> (\<exists>replies pm'.
      run (init (Some 3) 1)
        (map (\<lambda>results. OpMaintain \<lparr>query = ''SELECT $1'', types = [23]\<rparr> results NO '''')
           [[\<lparr>status = COMMAND_OK, command_status = Some ''SELECT 1''\<rparr>],
            [\<lparr>status = TUPLES_OK, command_status = Some ''SELECT 1''\<rparr>],
            [\<lparr>status = TUPLES_OK, command_status = None\<rparr>]])
        = Inr (replies, pm')
      \<and> fst (get pm' \<lparr>query = ''SELECT $1'', types = [23]\<rparr> None) = (SHOULD, ''_pg3_0''))"
proof -
  have n: "pg3_name 0 = ''_pg3_0''" by code_simp
  have s: "startswith ''SELECT 1'' ''DROP '' = False" by (simp add: startswith_def)
  show ?thesis
    using n s
      threshold_promotion [of "init (Some 3) 1" 3 "\<lparr>query = ''SELECT $1'', types = [23]\<rparr>"
        "[[\<lparr>status = COMMAND_OK, command_status = Some ''SELECT 1''\<rparr>],
          [\<lparr>status = TUPLES_OK, command_status = Some ''SELECT 1''\<rparr>]]"]
      threshold_promotion [of "init (Some 3) 1" 3 "\<lparr>query = ''SELECT $1'', types = [23]\<rparr>"
        "[[\<lparr>status = COMMAND_OK, command_status = Some ''SELECT 1''\<rparr>],
          [\<lparr>status = TUPLES_OK, command_status = Some ''SELECT 1''\<rparr>],
          [\<lparr>status = TUPLES_OK, command_status = None\<rparr>]]"]
    by (simp add: init_def eligible_def discards_def)
qed

text \<open>
  C1 as stated fails: the statement \<open>ROLLBACK\<close>, run twice with the threshold 2, gives
  two calls with one single \<open>COMMAND_OK\<close> result and the decision \<open>NO\<close>. The second
  call finds the cache non-empty and clears it, so \<open>get\<close> still answers \<open>NO\<close>.
\<close>

theorem rollback_twice_counterexample:
  "eligible [\<lparr>status = COMMAND_OK, command_status = Some ''ROLLBACK''\<rparr>] \<and>
   run (init (Some 2) 100)
     [OpMaintain \<lparr>query = ''ROLLBACK'', types = []\<rparr>
        [\<lparr>status = COMMAND_OK, command_status = Some ''ROLLBACK''\<rparr>] NO '''',
      OpMaintain \<lparr>query = ''ROLLBACK'', types = []\<rparr>
        [\<lparr>status = COMMAND_OK, command_status = Some ''ROLLBACK''\<rparr>] NO '''']
     = Inr ([Command None, Command (Some ''DEALLOCATE ALL'')], init (Some 2) 100) \<and>
   fst (get (init (Some 2) 100) \<lparr>query = ''ROLLBACK'', types = []\<rparr> None) = (NO, '''')"
  by (simp add: maintain_eq init_def invalidates_def eligible_def key_def new_value_def
        discards_def get_def od_get_def)

subsection \<open>The size of the cache\<close>

lemma length_filter_present:
  "map_of d k = Some v \<Longrightarrow> length (filter (\<lambda>p. fst p \<noteq> k) d) < length d"
  by (induction d) (auto split: if_splits simp: less_Suc_eq_le)

lemma maintain_size:
  assumes "maintain pm q results prep name = Inr (cmd, pm')"
    and "int (length (prepared pm)) \<le> prepared_max pm"
  shows "int (length (prepared pm')) \<le> prepared_max pm' \<and> prepared_max pm' = prepared_max pm"
proof (cases "map_of (prepared pm) (key q)")
  case None
  then show ?thesis using assms
    by (auto simp: maintain_eq split: if_splits)
next
  case (Some old)
  from length_filter_present [OF Some]
  have "length (filter (\<lambda>p. fst p \<noteq> key q) (prepared pm)) + 1 \<le> length (prepared pm)" by simp
  then show ?thesis using assms Some
    by (auto simp: maintain_eq split: if_splits)
qed

lemma step_size:
  assumes "step pm c = Inr (r, pm')"
    and "int (length (prepared pm)) \<le> prepared_max pm"
    and "0 \<le> prepared_max pm"
  shows "int (length (prepared pm')) \<le> prepared_max pm' \<and> prepared_max pm' = prepared_max pm"
proof (cases c)
  case (OpGet q p)
  then show ?thesis using assms by (auto split: prod.splits dest!: get_cases)
next
  case (OpMaintain q results prep name)
  then show ?thesis using assms maintain_size [of pm q results prep name]
    by (auto split: sum.splits prod.splits)
next
  case OpClear
  then show ?thesis using assms by (auto simp: clear_def split: if_splits)
qed

lemma run_size:
  assumes "int (length (prepared pm)) \<le> prepared_max pm" and "0 \<le> prepared_max pm"
  shows "\<exists>replies pm'. run pm cs = Inr (replies, pm')
           \<and> int (length (prepared pm')) \<le> prepared_max pm' \<and> prepared_max pm' = prepared_max pm"
  using assms
proof (induction cs arbitrary: pm)
  case Nil
  then show ?case by simp
next
  case (Cons c cs)
  obtain r pm1 where s: "step pm c = Inr (r, pm1)" using step_total by blast
  from step_size [OF s Cons.prems]
  have a: "int (length (prepared pm1)) \<le> prepared_max pm1"
    and b: "prepared_max pm1 = prepared_max pm"
    by auto
  from Cons.IH [OF a] b Cons.prems(2)
  obtain replies pm' where "run pm1 cs = Inr (replies, pm')"
    "int (length (prepared pm')) \<le> prepared_max pm'" "prepared_max pm' = prepared_max pm1"
    by auto
  then show ?case using s b by auto
qed

text \<open>
  C3. From the empty cache of \<open>__init__\<close>, with a configured maximum that is not
  negative, every sequence of calls of \<open>get\<close>, \<open>maintain\<close> and \<open>clear\<close> runs without an
  exception, and after each of its calls (after every prefix of the sequence) the cache
  holds at most the maximum number of entries.
\<close>

theorem cache_size_bounded:
  assumes "0 \<le> pmax"
  shows "\<forall>n. \<exists>replies pm. run (init threshold pmax) (take n cs) = Inr (replies, pm)
           \<and> int (length (prepared pm)) \<le> pmax"
proof
  fix n
  from run_size [of "init threshold pmax" "take n cs"] assms
  show "\<exists>replies pm. run (init threshold pmax) (take n cs) = Inr (replies, pm)
           \<and> int (length (prepared pm)) \<le> pmax"
    by (auto simp: init_def)
qed

theorem cache_size_bounded_witness:
  "\<exists>replies pm.
     run (init (Some 1) 1)
       (take 2 [OpMaintain \<lparr>query = ''SELECT 1'', types = []\<rparr>
                  [\<lparr>status = TUPLES_OK, command_status = Some ''SELECT 1''\<rparr>] NO '''',
                OpMaintain \<lparr>query = ''SELECT 2'', types = []\<rparr>
                  [\<lparr>status = TUPLES_OK, command_status = Some ''SELECT 1''\<rparr>] NO '''',
                OpClear])
       = Inr (replies, pm)
     \<and> int (length (prepared pm)) \<le> 1"
proof -
  have "(0::int) \<le> 1" by simp
  from cache_size_bounded [OF this, THEN spec, of "Some 1" 2] show ?thesis .
qed

subsection \<open>The names\<close>

lemma digit_char_inj: "a < 10 \<Longrightarrow> b < 10 \<Longrightarrow> digit_char a = digit_char b \<Longrightarrow> a = b"
proof -
  assume a: "a < 10" and b: "b < 10" and e: "digit_char a = digit_char b"
  from e have "(of_char (char_of (48 + a)) :: nat) = of_char (char_of (48 + b))"
    by (simp add: digit_char_def)
  then have "(48 + a) mod 256 = (48 + b) mod 256" by simp
  with a b show ?thesis by simp
qed

lemma str_of_nat_nonempty: "str_of_nat n \<noteq> []"
  by (subst str_of_nat.simps) simp

lemma str_of_nat_inj: "str_of_nat m = str_of_nat n \<Longrightarrow> m = n"
proof (induction m arbitrary: n rule: str_of_nat.induct)
  case (1 m)
  show ?case
  proof (cases "m < 10")
    case True
    have sm: "str_of_nat m = [digit_char m]" using True by (subst str_of_nat.simps) simp
    show ?thesis
    proof (cases "n < 10")
      case nt: True
      have "str_of_nat n = [digit_char n]" using nt by (subst str_of_nat.simps) simp
      with sm "1.prems" True nt show ?thesis by (auto dest: digit_char_inj)
    next
      case nf: False
      have "str_of_nat n = str_of_nat (n div 10) @ [digit_char (n mod 10)]"
        using nf by (subst str_of_nat.simps) simp
      with sm "1.prems" have "str_of_nat (n div 10) = []" by simp
      then show ?thesis using str_of_nat_nonempty by blast
    qed
  next
    case False
    have sm: "str_of_nat m = str_of_nat (m div 10) @ [digit_char (m mod 10)]"
      using False by (subst str_of_nat.simps) simp
    show ?thesis
    proof (cases "n < 10")
      case nt: True
      have "str_of_nat n = [digit_char n]" using nt by (subst str_of_nat.simps) simp
      with sm "1.prems" have "str_of_nat (m div 10) = []" by simp
      then show ?thesis using str_of_nat_nonempty by blast
    next
      case nf: False
      have sn: "str_of_nat n = str_of_nat (n div 10) @ [digit_char (n mod 10)]"
        using nf by (subst str_of_nat.simps) simp
      from sm sn "1.prems" have e1: "str_of_nat (m div 10) = str_of_nat (n div 10)"
        and e2: "digit_char (m mod 10) = digit_char (n mod 10)" by simp_all
      from "1.IH" [OF False e1] have d: "m div 10 = n div 10" .
      from e2 have r: "m mod 10 = n mod 10" by (auto dest!: digit_char_inj [rotated 2])
      from d r show ?thesis by (metis div_mult_mod_eq)
    qed
  qed
qed

lemma pg3_name_inj: "pg3_name i = pg3_name j \<Longrightarrow> i = j"
  by (simp add: pg3_name_def str_of_nat_inj)

lemma step_names:
  assumes "step pm c = Inr (r, pm')" and "c \<noteq> OpClear"
  shows "prepared_idx pm \<le> prepared_idx pm'
           \<and> new_names [r] = map pg3_name [prepared_idx pm ..< prepared_idx pm']"
proof (cases c)
  case (OpGet q p)
  then show ?thesis using assms
    by (cases "fst (fst (get pm q p))") (auto split: prod.splits dest!: get_cases)
next
  case (OpMaintain q results prep name)
  then show ?thesis using assms
    by (auto simp: maintain_eq split: sum.splits prod.splits if_splits option.splits)
next
  case OpClear
  then show ?thesis using assms by simp
qed

lemma new_names_Cons: "new_names (r # rs) = new_names [r] @ new_names rs"
  by (induction "r # rs" rule: new_names.induct) auto

lemma run_names:
  assumes "OpClear \<notin> set cs" and "run pm cs = Inr (replies, pm')"
  shows "prepared_idx pm \<le> prepared_idx pm'
           \<and> new_names replies = map pg3_name [prepared_idx pm ..< prepared_idx pm']"
  using assms
proof (induction cs arbitrary: pm replies)
  case Nil
  then show ?case by simp
next
  case (Cons c cs)
  obtain r pm1 where s: "step pm c = Inr (r, pm1)" using step_total by blast
  with Cons.prems obtain rs where rr: "run pm1 cs = Inr (rs, pm')" and rep: "replies = r # rs"
    by (auto split: sum.splits)
  from Cons.prems have nc: "c \<noteq> OpClear" and ncs: "OpClear \<notin> set cs" by auto
  from step_names [OF s nc] have a: "prepared_idx pm \<le> prepared_idx pm1"
    and b: "new_names [r] = map pg3_name [prepared_idx pm ..< prepared_idx pm1]" by auto
  from Cons.IH [OF ncs rr] have c: "prepared_idx pm1 \<le> prepared_idx pm'"
    and d: "new_names rs = map pg3_name [prepared_idx pm1 ..< prepared_idx pm']" by auto
  have "[prepared_idx pm ..< prepared_idx pm'] =
          [prepared_idx pm ..< prepared_idx pm1] @ [prepared_idx pm1 ..< prepared_idx pm']"
    using a c by (metis le_Suc_ex upt_add_eq_append)
  then show ?case using a b c d rep new_names_Cons [of r rs] by simp
qed

text \<open>
  C5, as amended. In a sequence of calls of \<open>get\<close> and \<open>maintain\<close> with no call of
  \<open>clear\<close>, from any state of the manager, no call raises and the names handed out by
  the \<open>SHOULD\<close> answers are pairwise distinct: evictions and invalidations leave the
  counter alone, so neither brings a name back.
\<close>

theorem names_unique_between_resets:
  assumes "OpClear \<notin> set cs"
  shows "\<exists>replies pm'. run pm cs = Inr (replies, pm') \<and> distinct (new_names replies)"
proof -
  obtain replies pm' where r: "run pm cs = Inr (replies, pm')" using run_total by blast
  have "inj_on pg3_name (set [prepared_idx pm ..< prepared_idx pm'])"
    by (auto intro!: inj_onI dest: pg3_name_inj)
  then have "distinct (new_names replies)"
    using run_names [OF assms r] by (simp add: distinct_map)
  with r show ?thesis by blast
qed

theorem names_unique_between_resets_witness:
  "\<exists>replies pm'.
     run (init (Some 5) 1)
       [OpGet \<lparr>query = ''SELECT 1'', types = []\<rparr> (Some True),
        OpMaintain \<lparr>query = ''SELECT 1'', types = []\<rparr>
          [\<lparr>status = TUPLES_OK, command_status = Some ''SELECT 1''\<rparr>] SHOULD ''_pg3_0'',
        OpMaintain \<lparr>query = ''SELECT 2'', types = []\<rparr>
          [\<lparr>status = TUPLES_OK, command_status = Some ''SELECT 1''\<rparr>] NO '''',
        OpGet \<lparr>query = ''SELECT 1'', types = []\<rparr> (Some True)]
       = Inr (replies, pm')
     \<and> distinct (new_names replies)"
  using names_unique_between_resets [of
       "[OpGet \<lparr>query = ''SELECT 1'', types = []\<rparr> (Some True),
        OpMaintain \<lparr>query = ''SELECT 1'', types = []\<rparr>
          [\<lparr>status = TUPLES_OK, command_status = Some ''SELECT 1''\<rparr>] SHOULD ''_pg3_0'',
        OpMaintain \<lparr>query = ''SELECT 2'', types = []\<rparr>
          [\<lparr>status = TUPLES_OK, command_status = Some ''SELECT 1''\<rparr>] NO '''',
        OpGet \<lparr>query = ''SELECT 1'', types = []\<rparr> (Some True)]" "init (Some 5) 1"]
  by simp

text \<open>
  C5 as stated fails: \<open>clear\<close> sets the counter back to 0, and the next \<open>SHOULD\<close> answer
  on the same connection hands out the name \<open>_pg3_0\<close> a second time.
\<close>

theorem name_reused_after_clear_counterexample:
  "run (init (Some 5) 100)
     [OpGet \<lparr>query = ''SELECT 1'', types = []\<rparr> (Some True),
      OpClear,
      OpGet \<lparr>query = ''SELECT 2'', types = []\<rparr> (Some True)]
     = Inr ([Decision SHOULD ''_pg3_0'', Command (Some ''DEALLOCATE ALL''),
             Decision SHOULD ''_pg3_0''], (init (Some 5) 100)\<lparr>prepared_idx := 1\<rparr>)
   \<and> \<not> distinct (new_names [Decision SHOULD ''_pg3_0'', Command (Some ''DEALLOCATE ALL''),
             Decision SHOULD ''_pg3_0''])"
proof -
  have n: "pg3_name 0 = ''_pg3_0''" by code_simp
  show ?thesis using n by (simp add: get_def init_def od_get_def key_def clear_def)
qed

subsection \<open>Eviction takes the least recently used entry\<close>

lemma filter_absent: "map_of d k = None \<Longrightarrow> filter (\<lambda>p. fst p \<noteq> k) d = d"
  by (induction d) (auto split: if_splits)

lemma touch_sorted:
  assumes "sorted_wrt (<) (map (\<lambda>p. s (fst p)) d)"
    and "\<forall>p \<in> set d. s (fst p) < (c::nat)"
  shows "sorted_wrt (<) (map (\<lambda>p. (s(k := c)) (fst p)) (filter (\<lambda>p. fst p \<noteq> k) d @ [(k, v)]))"
proof -
  have e: "map (\<lambda>p. (s(k := c)) (fst p)) (filter (\<lambda>p. fst p \<noteq> k) d)
             = map (\<lambda>p. s (fst p)) (filter (\<lambda>p. fst p \<noteq> k) d)"
    by (induction d) auto
  have "sorted_wrt (<) (map (\<lambda>p. s (fst p)) (filter (\<lambda>p. fst p \<noteq> k) d))"
    using assms(1) by (induction d) auto
  then have "sorted_wrt (<) (map (\<lambda>p. s (fst p)) (filter (\<lambda>p. fst p \<noteq> k) d) @ [c])"
    using assms(2) by (auto simp: sorted_wrt_append)
  moreover have "map (\<lambda>p. (s(k := c)) (fst p)) (filter (\<lambda>p. fst p \<noteq> k) d @ [(k, v)])
                   = map (\<lambda>p. s (fst p)) (filter (\<lambda>p. fst p \<noteq> k) d) @ [c]"
    using e by simp
  ultimately show ?thesis by (simp only:)
qed

lemma touch_bounded:
  assumes "\<forall>p \<in> set d. s (fst p) < (c::nat)"
  shows "\<forall>p \<in> set (filter (\<lambda>p. fst p \<noteq> k) d @ [(k, v)]). (s(k := c)) (fst p) < Suc c"
  using assms by (auto simp: less_Suc_eq)

lemma set_tl_subset: "p \<in> set (tl xs) \<Longrightarrow> p \<in> set xs"
  by (cases xs) auto

lemma step_traced_total: "\<exists>r t'. step_traced t c = Inr (r, t')"
  using step_total [of "mgr t" c] by (auto simp: step_traced_def)

lemma recency_ordered_tick:
  assumes "recency_ordered t"
    and "prepared (mgr t') = prepared (mgr t) \<or> prepared (mgr t') = []"
    and "stamp t' = stamp t"
    and "clock t' = Suc (clock t)"
  shows "recency_ordered t'"
  using assms by (auto simp: recency_ordered_def less_Suc_eq)

lemma sorted_wrt_map_tl: "sorted_wrt P (map f xs) \<Longrightarrow> sorted_wrt P (map f (tl xs))"
  by (cases xs) auto

lemma step_get_ordered:
  assumes inv: "recency_ordered t" and s: "step_traced t (OpGet q p) = Inr (r, t')"
  shows "recency_ordered t'"
proof -
  obtain d n pm' where g: "get (mgr t) q p = ((d, n), pm')"
    by (cases "get (mgr t) q p") auto
  from get_cases [OF g] have "prepared pm' = prepared (mgr t)" by auto
  then have a: "prepared (mgr t') = prepared (mgr t) \<or> prepared (mgr t') = []"
    and b: "stamp t' = stamp t" and c: "clock t' = Suc (clock t)"
    using s g by (auto simp: step_traced_def)
  show ?thesis by (rule recency_ordered_tick [OF inv a b c])
qed

lemma step_clear_ordered:
  assumes inv: "recency_ordered t" and s: "step_traced t OpClear = Inr (r, t')"
  shows "recency_ordered t'"
proof -
  have a: "prepared (mgr t') = prepared (mgr t) \<or> prepared (mgr t') = []"
    and b: "stamp t' = stamp t" and c: "clock t' = Suc (clock t)"
    using s by (auto simp: step_traced_def clear_def split: if_splits)
  show ?thesis by (rule recency_ordered_tick [OF inv a b c])
qed

lemma step_untouched_ordered:
  assumes inv: "recency_ordered t"
    and s: "step_traced t (OpMaintain q results prep name) = Inr (r, t')"
    and None: "touches (mgr t) (OpMaintain q results prep name) = None"
  shows "recency_ordered t'"
proof -
  obtain cmd pm' where m: "maintain (mgr t) q results prep name = Inr (cmd, pm')"
    using maintain_total by blast
  have "prepared pm' = prepared (mgr t) \<or> prepared pm' = []"
    using m None
    by (auto simp: maintain_eq split: if_splits option.splits)
  then have a: "prepared (mgr t') = prepared (mgr t) \<or> prepared (mgr t') = []"
    and b: "stamp t' = stamp t" and c: "clock t' = Suc (clock t)"
    using s None m
    by (auto simp: step_traced_def simp del: touches.simps)
  show ?thesis by (rule recency_ordered_tick [OF inv a b c])
qed

lemma step_touched_ordered:
  assumes inv: "recency_ordered t"
    and s: "step_traced t (OpMaintain q results prep name) = Inr (r, t')"
    and Some: "touches (mgr t) (OpMaintain q results prep name) = Some k"
  shows "recency_ordered t'"
proof -
  let ?d = "prepared (mgr t)"
  let ?k = "key q"
  from inv have so: "sorted_wrt (<) (map (\<lambda>p. stamp t (fst p)) ?d)"
    and bo: "\<forall>p \<in> set ?d. stamp t (fst p) < clock t"
    by (auto simp: recency_ordered_def)
  obtain cmd pm' where m: "maintain (mgr t) q results prep name = Inr (cmd, pm')"
    using maintain_total by blast
  from Some have k: "k = ?k" and th: "prepare_threshold (mgr t) \<noteq> None"
    and ni: "\<not> invalidates (mgr t) prep results"
    and pe: "map_of ?d ?k \<noteq> None \<or> eligible results"
    by (auto split: if_splits)
  have mg: "mgr t' = pm'" and st: "stamp t' = (stamp t)(?k := clock t)"
    and cl: "clock t' = Suc (clock t)"
    using s Some k m by (auto simp: step_traced_def simp del: touches.simps)
  have "\<exists>v. prepared pm' = filter (\<lambda>p. fst p \<noteq> ?k) ?d @ [(?k, v)]
             \<or> prepared pm' = tl (filter (\<lambda>p. fst p \<noteq> ?k) ?d @ [(?k, v)])"
  proof (cases "map_of ?d ?k")
    case None
    then show ?thesis using m th ni pe
      by (auto simp: maintain_eq filter_absent split: if_splits)
  next
    case (Some old)
    then show ?thesis using m th ni
      by (auto simp: maintain_eq split: if_splits)
  qed
  then obtain v where
    pr: "prepared (mgr t') = filter (\<lambda>p. fst p \<noteq> ?k) ?d @ [(?k, v)]
           \<or> prepared (mgr t') = tl (filter (\<lambda>p. fst p \<noteq> ?k) ?d @ [(?k, v)])"
    using mg by blast
  let ?d' = "filter (\<lambda>p. fst p \<noteq> ?k) ?d @ [(?k, v)]"
  from touch_sorted [OF so bo, of ?k v]
  have s1: "sorted_wrt (<) (map (\<lambda>p. stamp t' (fst p)) ?d')" by (simp only: st)
  from touch_bounded [OF bo, of ?k v]
  have b1: "\<forall>p \<in> set ?d'. stamp t' (fst p) < clock t'" by (simp only: st cl)
  from pr show ?thesis
  proof
    assume "prepared (mgr t') = ?d'"
    then show ?thesis using s1 b1 by (simp only: recency_ordered_def)
  next
    assume e: "prepared (mgr t') = tl ?d'"
    have "sorted_wrt (<) (map (\<lambda>p. stamp t' (fst p)) (tl ?d'))"
      by (rule sorted_wrt_map_tl [OF s1])
    moreover have "\<forall>p \<in> set (tl ?d'). stamp t' (fst p) < clock t'"
    proof
      fix p assume "p \<in> set (tl ?d')"
      then have "p \<in> set ?d'" by (rule set_tl_subset)
      with b1 show "stamp t' (fst p) < clock t'" by (rule bspec)
    qed
    ultimately show ?thesis using e by (simp only: recency_ordered_def)
  qed
qed

lemma step_traced_ordered:
  assumes inv: "recency_ordered t" and s: "step_traced t c = Inr (r, t')"
  shows "recency_ordered t'"
proof (cases c)
  case (OpGet q p)
  with inv s show ?thesis using step_get_ordered by blast
next
  case OpClear
  with inv s show ?thesis using step_clear_ordered by blast
next
  case (OpMaintain q results prep name)
  show ?thesis
  proof (cases "touches (mgr t) (OpMaintain q results prep name)")
    case None
    from step_untouched_ordered [OF inv _ None] s OpMaintain show ?thesis by blast
  next
    case (Some k)
    from step_touched_ordered [OF inv _ Some] s OpMaintain show ?thesis by blast
  qed
qed

lemma run_traced_ordered:
  assumes "recency_ordered t" and "run_traced t cs = Inr (replies, t')"
  shows "recency_ordered t'"
  using assms
proof (induction cs arbitrary: t replies)
  case Nil
  then show ?case by simp
next
  case (Cons c cs)
  obtain r t1 where s: "step_traced t c = Inr (r, t1)" using step_traced_total by blast
  with Cons.prems obtain rs where rr: "run_traced t1 cs = Inr (rs, t')"
    by (auto split: sum.splits)
  from step_traced_ordered [OF Cons.prems(1) s] have "recency_ordered t1" .
  from Cons.IH [OF this rr] show ?case .
qed

lemma traced_init_ordered: "recency_ordered (traced_init threshold pmax)"
  by (simp add: recency_ordered_def traced_init_def init_def)

text \<open>
  C4. In a state reached from the empty cache by any sequence of calls, take a call of
  \<open>maintain\<close> that reaches the eviction: preparing is enabled, the results do not
  invalidate, the key is not in the cache and the results pass the two tests, and with
  the new entry the cache is larger than the maximum. Then the call removes exactly the
  first entry of the cache with the new entry appended, every entry that stays was
  touched later than the removed one, and the call returns \<open>DEALLOCATE\<close> with the name
  of the removed entry when its value was a name, and no command when it was a count.
\<close>

theorem eviction_lru:
  assumes "run_traced (traced_init threshold pmax) cs = Inr (replies, t)"
    and "prepare_threshold (mgr t) \<noteq> None"
    and "\<not> invalidates (mgr t) prep results"
    and "map_of (prepared (mgr t)) (key q) = None"
    and "eligible results"
    and "prepared_max (mgr t) < int (length (prepared (mgr t))) + 1"
  shows "\<exists>k0 v0 rest t'.
           prepared (mgr t) @ [(key q, new_value prep name)] = (k0, v0) # rest
           \<and> step_traced t (OpMaintain q results prep name)
               = Inr (Command (case v0 of Name n \<Rightarrow> Some (''DEALLOCATE '' @ n)
                                        | Count _ \<Rightarrow> None), t')
           \<and> prepared (mgr t') = rest
           \<and> (\<forall>p \<in> set rest. stamp t' k0 < stamp t' (fst p))"
proof -
  let ?c = "OpMaintain q results prep name"
  let ?d = "prepared (mgr t) @ [(key q, new_value prep name)]"
  obtain k0 v0 rest where d: "?d = (k0, v0) # rest" by (cases ?d) auto
  obtain r t' where s: "step_traced t ?c = Inr (r, t')" using step_traced_total by blast
  have inv: "recency_ordered t"
    using run_traced_ordered [OF traced_init_ordered assms(1)] .
  have r: "r = Command (dealloc v0)" and p: "prepared (mgr t') = rest"
    using s assms(2-6) d by (auto simp: step_traced_def maintain_eq)
  have tc: "touches (mgr t) ?c = Some (key q)" using assms(2-6) by simp
  obtain r0 pm0 where s0: "step (mgr t) ?c = Inr (r0, pm0)" using step_total by blast
  have st: "stamp t' = (stamp t)(key q := clock t)"
    using s by (simp add: step_traced_def s0 tc del: step.simps touches.simps) auto
  from inv have so: "sorted_wrt (<) (map (\<lambda>p. stamp t (fst p)) (prepared (mgr t)))"
    and bo: "\<forall>p \<in> set (prepared (mgr t)). stamp t (fst p) < clock t"
    by (auto simp: recency_ordered_def)
  from touch_sorted [OF so bo, of "key q" "new_value prep name"]
  have "sorted_wrt (<) (map (\<lambda>p. stamp t' (fst p)) ?d)"
    by (simp add: st filter_absent [OF assms(4)])
  then have "\<forall>p \<in> set rest. stamp t' k0 < stamp t' (fst p)"
    by (simp add: d)
  with d s r p show ?thesis by (auto simp: dealloc_def)
qed

theorem eviction_lru_witness:
  "\<exists>t t'.
     run_traced (traced_init (Some 3) 1)
       [OpMaintain \<lparr>query = ''SELECT $1'', types = [23]\<rparr>
          [\<lparr>status = COMMAND_OK, command_status = Some ''SELECT 1''\<rparr>] SHOULD ''_pg3_0'']
       = Inr ([Command None], t)
     \<and> step_traced t
         (OpMaintain \<lparr>query = ''SELECT 2'', types = []\<rparr>
            [\<lparr>status = TUPLES_OK, command_status = Some ''SELECT 1''\<rparr>] NO '''')
         = Inr (Command (Some ''DEALLOCATE _pg3_0''), t')
     \<and> prepared (mgr t') = [((''SELECT 2'', []), Count 1)]"
proof -
  define t where "t = \<lparr>mgr = \<lparr>prepare_threshold = Some 3, prepared_max = 1,
      prepared = [((''SELECT $1'', [23]), Name ''_pg3_0'')], prepared_idx = 0\<rparr>,
      clock = 1, stamp = (\<lambda>_. 0)((''SELECT $1'', [23]) := 0)\<rparr>"
  have s: "startswith ''SELECT 1'' ''DROP '' = False" by (simp add: startswith_def)
  have r: "run_traced (traced_init (Some 3) 1)
       [OpMaintain \<lparr>query = ''SELECT $1'', types = [23]\<rparr>
          [\<lparr>status = COMMAND_OK, command_status = Some ''SELECT 1''\<rparr>] SHOULD ''_pg3_0'']
       = Inr ([Command None], t)"
    using s
    by (simp add: t_def traced_init_def init_def step_traced_def maintain_eq invalidates_def
        discards_def eligible_def key_def new_value_def)
  from eviction_lru [OF r, of NO "[\<lparr>status = TUPLES_OK, command_status = Some ''SELECT 1''\<rparr>]"
      "\<lparr>query = ''SELECT 2'', types = []\<rparr>" "''''"]
  have "\<exists>t'. step_traced t
         (OpMaintain \<lparr>query = ''SELECT 2'', types = []\<rparr>
            [\<lparr>status = TUPLES_OK, command_status = Some ''SELECT 1''\<rparr>] NO '''')
         = Inr (Command (Some ''DEALLOCATE _pg3_0''), t')
     \<and> prepared (mgr t') = [((''SELECT 2'', []), Count 1)]"
    by (auto simp: t_def invalidates_def discards_def eligible_def key_def new_value_def)
  with r show ?thesis by blast
qed

section \<open>Properties of the waiting functions\<close>

subsection \<open>What the multiplexors report\<close>

lemma sel_select_None_nonempty:
  "sel_select fileno s None env = Some (rlist, env') \<Longrightarrow> rlist \<noteq> []"
  by (induction fileno s "None :: real option" env rule: sel_select.induct)
     (auto split: if_splits)



lemma asyncio_wait_None_nonempty:
  "asyncio_wait fs None env = Some (done, env') \<Longrightarrow> done \<noteq> []"
  by (induction fs "None :: real option" env rule: asyncio_wait.induct) (auto split: if_splits)

lemma sel_register_error: "sel_register fileno s = Some e \<Longrightarrow> e = ValueError"
  by (auto simp: sel_register_def split: if_splits)











subsection \<open>No driver is resumed with a readiness outside its request\<close>



















subsection \<open>Waiting without a timeout never times out\<close>

lemma conn_loop_no_timeout:
  "conn_loop gen g fileno s None env \<noteq> Raised (OperationalError m)"
proof (induction gen g fileno s "None :: real option" env rule: conn_loop.induct)
  case (1 gen g fileno s env)
  show ?case
  proof (cases "sel_register fileno s")
    case (Some e)
    then show ?thesis using sel_register_error [OF Some] by (simp add: conn_loop.simps)
  next
    case None
    note reg = None
    show ?thesis
    proof (cases "sel_select fileno s None env")
      case None
      then show ?thesis using reg by (simp add: conn_loop.simps)
    next
      case (Some a)
      obtain rlist env' where a: "a = (rlist, env')" by (cases a)
      from sel_select_None_nonempty [of fileno s env rlist env'] Some a
      obtain k ready rest where r: "rlist = (k, ready) # rest"
        by (cases rlist) auto
      show ?thesis
      proof (cases "gen g (Some ready)")
        case (StopIteration rv)
        then show ?thesis using reg Some a r by (simp add: conn_loop.simps)
      next
        case (Yield y g')
        obtain fileno' s' where y: "y = (fileno', s')" by (cases y)
        from "1.hyps" [OF reg Some a [symmetric] r refl Yield y [symmetric]]
        have "conn_loop gen g' fileno' s' None env' \<noteq> Raised (OperationalError m)" .
        then show ?thesis using reg Some a r Yield y by (simp add: conn_loop.simps)
      qed
    qed
  qed
qed

lemma conn_async_loop_no_timeout:
  "conn_async_loop gen g fileno s None env \<noteq> Raised (OperationalError m)"
proof (induction gen g fileno s "None :: real option" env rule: conn_async_loop.induct)
  case (1 gen g fileno s env)
  show ?case
  proof (cases "futures s = []")
    case True
    then show ?thesis by (simp add: conn_async_loop.simps)
  next
    case False
    note fs = False
    show ?thesis
    proof (cases "asyncio_wait (futures s) None env")
      case None
      then show ?thesis using fs by (simp add: conn_async_loop.simps)
    next
      case (Some a)
      obtain dn env' where a: "a = (dn, env')" by (cases a)
      from asyncio_wait_None_nonempty Some a have d: "dn \<noteq> []" by blast
      show ?thesis
      proof (cases "gen g (Some (merge_ready dn))")
        case (StopIteration rv)
        then show ?thesis using fs Some a d by (simp add: conn_async_loop.simps)
      next
        case (Yield y g')
        obtain fileno' s' where y: "y = (fileno', s')" by (cases y)
        from "1.hyps" [OF refl fs Some a [symmetric] d Yield y [symmetric]]
        have "conn_async_loop gen g' fileno' s' None env' \<noteq> Raised (OperationalError m)" .
        then show ?thesis using fs Some a d Yield y by (simp add: conn_async_loop.simps)
      qed
    qed
  qed
qed

lemma async_loop_no_timeout:
  "async_loop gen g fileno s env \<noteq> Raised (OperationalError m)"
proof (induction gen g fileno s env rule: async_loop.induct)
  case (1 gen g fileno s env)
  show ?case
  proof (cases "futures s = []")
    case True
    then show ?thesis by (simp add: async_loop.simps)
  next
    case False
    note fs = False
    show ?thesis
    proof (cases "asyncio_wait (futures s) None env")
      case None
      then show ?thesis using fs by (simp add: async_loop.simps)
    next
      case (Some a)
      obtain dn env' where a: "a = (dn, env')" by (cases a)
      show ?thesis
      proof (cases "gen g (Some (merge_ready dn))")
        case (StopIteration rv)
        then show ?thesis using fs Some a by (simp add: async_loop.simps)
      next
        case (Yield s' g')
        from "1.IH" [OF refl fs Some a [symmetric] Yield]
        have "async_loop gen g' fileno s' env' \<noteq> Raised (OperationalError m)" .
        then show ?thesis using fs Some a Yield by (simp add: async_loop.simps)
      qed
    qed
  qed
qed

subsection \<open>Timeouts\<close>

text \<open>
  C8, as amended. \<open>wait_async\<close> takes no timeout and never raises the timeout error:
  with no readiness it goes on waiting. The two functions for connection generators
  raise \<open>OperationalError("timeout expired")\<close>, in whatever round of the loop, when the
  timeout is set and a quiet period passes before any readiness is observed; a
  timeout given to them that is not zero is such a timeout. That error is neither the
  \<open>AssertionError\<close> of the readiness test nor an \<open>InternalError\<close>.
\<close>

theorem timeout_expired:
  "(sel_register fileno s = None
      \<longrightarrow> conn_loop gen g fileno s (Some t) (Quiet # env)
            = Raised (OperationalError ''timeout expired''))
   \<and> (futures s \<noteq> []
      \<longrightarrow> conn_async_loop gen g fileno s (Some t) (Quiet # env)
            = Raised (OperationalError ''timeout expired''))
   \<and> (t \<noteq> 0 \<and> gen g None = Yield (fileno, s) g' \<and> sel_register fileno s = None
      \<longrightarrow> wait_conn gen g (Some t) (Quiet # env) = Raised (OperationalError ''timeout expired''))
   \<and> (t \<noteq> 0 \<and> gen g None = Yield (fileno, s) g' \<and> futures s \<noteq> []
      \<longrightarrow> wait_conn_async gen g (Some t) (Quiet # env)
            = Raised (OperationalError ''timeout expired''))
   \<and> (\<forall>m. wait_async gena ga fileno env \<noteq> Raised (OperationalError m))
   \<and> OperationalError ''timeout expired'' \<noteq> AssertionError
   \<and> (\<forall>m. OperationalError ''timeout expired'' \<noteq> InternalError m)"
proof -
  have a: "sel_register fileno s = None
      \<longrightarrow> conn_loop gen g fileno s (Some t) (Quiet # env)
            = Raised (OperationalError ''timeout expired'')" for g
    by (simp add: conn_loop.simps)
  have b: "futures s \<noteq> []
      \<longrightarrow> conn_async_loop gen g fileno s (Some t) (Quiet # env)
            = Raised (OperationalError ''timeout expired'')" for g
    by (simp add: conn_async_loop.simps)
  have c: "t \<noteq> 0 \<and> gen g None = Yield (fileno, s) g' \<and> sel_register fileno s = None
      \<longrightarrow> wait_conn gen g (Some t) (Quiet # env) = Raised (OperationalError ''timeout expired'')"
    using a [of g'] by (simp add: wait_conn_def or_None_def)
  have d: "t \<noteq> 0 \<and> gen g None = Yield (fileno, s) g' \<and> futures s \<noteq> []
      \<longrightarrow> wait_conn_async gen g (Some t) (Quiet # env)
            = Raised (OperationalError ''timeout expired'')"
    using b [of g'] by (simp add: wait_conn_async_def or_None_def)
  have e: "\<forall>m. wait_async gena ga fileno env \<noteq> Raised (OperationalError m)"
    using async_loop_no_timeout [of gena _ fileno _ env]
    by (auto simp: wait_async_def split: gen_step.splits)
  from a [of g] b [of g] c d e show ?thesis by simp
qed

theorem timeout_expired_witness:
  "wait_conn conn_read_once 0 (Some 2.5) [Quiet, Events EVENT_READ]
     = Raised (OperationalError ''timeout expired'')
   \<and> wait_conn_async conn_read_once 0 (Some 2.5) [Quiet, Events EVENT_READ]
     = Raised (OperationalError ''timeout expired'')
   \<and> wait_async read_once 0 5 [Events EVENT_READ] \<noteq> Raised (OperationalError ''timeout expired'')"
proof -
  have r: "sel_register 5 EVENT_READ = None"
    by (simp add: sel_register_def EVENT_READ_def EVENT_WRITE_def)
  have f: "futures EVENT_READ \<noteq> []" by (simp add: futures_def EVENT_READ_def)
  have y: "conn_read_once 0 None = Yield (5, EVENT_READ) 1" by (simp add: conn_read_once_def)
  from timeout_expired [where fileno = 5 and s = EVENT_READ and gen = conn_read_once and g = 0
      and g' = 1 and t = "2.5" and env = "[Events EVENT_READ]" and gena = read_once and ga = 0] r f y
  show ?thesis by simp
qed

text \<open>
  C8 as stated fails for \<open>wait_async\<close>: it has no timeout argument, and when periods
  as long as any deadline pass with no readiness it is still waiting.
\<close>

theorem wait_async_no_deadline_counterexample:
  "wait_async read_once 0 5 [Quiet, Quiet, Quiet] = Blocked"
  by (simp add: wait_async_def async_loop.simps read_once_def futures_def EVENT_READ_def
      EVENT_WRITE_def)

subsection \<open>A timeout of zero\<close>

lemma conn_loop_quiet:
  "conn_loop gen g fileno s None (Quiet # env) = conn_loop gen g fileno s None env"
  by (subst conn_loop.simps, subst (2) conn_loop.simps) (simp split: option.splits)

lemma conn_loop_quiets:
  "conn_loop gen g fileno s None (replicate n Quiet @ env) = conn_loop gen g fileno s None env"
  by (induction n) (simp_all add: conn_loop_quiet)

lemma conn_loop_end:
  "sel_register fileno s = None \<Longrightarrow> conn_loop gen g fileno s timeout [] = Blocked"
  by (subst conn_loop.simps) simp

lemma conn_loop_event:
  "sel_register fileno s = None \<Longrightarrow> ev AND s \<noteq> 0 \<Longrightarrow>
   conn_loop gen g fileno s timeout (Events ev # env) =
     (case gen g (Some (ev AND s)) of
        StopIteration rv \<Rightarrow> Returned rv
      | Yield (fileno', s') g' \<Rightarrow> conn_loop gen g' fileno' s' timeout env)"
  by (subst conn_loop.simps) simp

lemma conn_async_loop_quiet:
  "conn_async_loop gen g fileno s None (Quiet # env) = conn_async_loop gen g fileno s None env"
  by (subst conn_async_loop.simps, subst (2) conn_async_loop.simps) (simp add: Let_def)

lemma conn_async_loop_quiets:
  "conn_async_loop gen g fileno s None (replicate n Quiet @ env)
     = conn_async_loop gen g fileno s None env"
  by (induction n) (simp_all add: conn_async_loop_quiet)

lemma conn_async_loop_end:
  "futures s \<noteq> [] \<Longrightarrow> conn_async_loop gen g fileno s timeout [] = Blocked"
  by (subst conn_async_loop.simps) simp

lemma conn_async_loop_event:
  "filter (\<lambda>f. f AND ev \<noteq> 0) (futures s) \<noteq> [] \<Longrightarrow>
   conn_async_loop gen g fileno s timeout (Events ev # env) =
     (case gen g (Some (merge_ready (filter (\<lambda>f. f AND ev \<noteq> 0) (futures s)))) of
        StopIteration rv \<Rightarrow> Returned rv
      | Yield (fileno', s') g' \<Rightarrow> conn_async_loop gen g' fileno' s' timeout env)"
  by (subst conn_async_loop.simps) (auto simp: Let_def)

text \<open>
  C10. In \<open>wait_conn\<close> and \<open>wait_conn_async\<close> a timeout of 0 is the same call as no
  timeout, whatever the driver and the events. The call never raises the timeout
  error. It blocks until a readiness arrives: after a driver's first request, through
  any number of quiet periods, each as long as a timeout, the call is still blocked;
  and when an event of the request arrives after them, the driver is resumed with it
  and the call goes on from there, without timeout.
\<close>

theorem zero_timeout_waits:
  "wait_conn gen g (Some 0) env = wait_conn gen g None env
   \<and> (\<forall>m. wait_conn gen g (Some 0) env \<noteq> Raised (OperationalError m))
   \<and> wait_conn gen g (Some 0) (Quiet # env) = wait_conn gen g (Some 0) env
   \<and> (gen g None = Yield (fileno, s) g' \<and> sel_register fileno s = None \<longrightarrow>
         wait_conn gen g (Some 0) (replicate n Quiet) = Blocked
         \<and> (ev AND s \<noteq> 0 \<longrightarrow>
               wait_conn gen g (Some 0) (replicate n Quiet @ Events ev # env) =
                 (case gen g' (Some (ev AND s)) of
                    StopIteration rv \<Rightarrow> Returned rv
                  | Yield (fileno', s') g'' \<Rightarrow> conn_loop gen g'' fileno' s' None env)))
   \<and> wait_conn_async gen g (Some 0) env = wait_conn_async gen g None env
   \<and> (\<forall>m. wait_conn_async gen g (Some 0) env \<noteq> Raised (OperationalError m))
   \<and> wait_conn_async gen g (Some 0) (Quiet # env) = wait_conn_async gen g (Some 0) env
   \<and> (gen g None = Yield (fileno, s) g' \<and> futures s \<noteq> [] \<longrightarrow>
         wait_conn_async gen g (Some 0) (replicate n Quiet) = Blocked
         \<and> (filter (\<lambda>f. f AND ev \<noteq> 0) (futures s) \<noteq> [] \<longrightarrow>
               wait_conn_async gen g (Some 0) (replicate n Quiet @ Events ev # env) =
                 (case gen g' (Some (merge_ready (filter (\<lambda>f. f AND ev \<noteq> 0) (futures s)))) of
                    StopIteration rv \<Rightarrow> Returned rv
                  | Yield (fileno', s') g'' \<Rightarrow>
                      conn_async_loop gen g'' fileno' s' None env)))"
proof -
  have a: "wait_conn gen g (Some 0) env = wait_conn gen g None env" for env
    by (simp add: wait_conn_def or_None_def)
  have b: "\<forall>m. wait_conn gen g None env \<noteq> Raised (OperationalError m)"
    using conn_loop_no_timeout [of gen _ _ _ env]
    by (auto simp: wait_conn_def or_None_def split: gen_step.splits)
  have c: "wait_conn gen g None (Quiet # env) = wait_conn gen g None env"
    by (auto simp: wait_conn_def or_None_def conn_loop_quiet split: gen_step.splits)
  have d: "gen g None = Yield (fileno, s) g' \<and> sel_register fileno s = None \<longrightarrow>
         wait_conn gen g None (replicate n Quiet) = Blocked
         \<and> (ev AND s \<noteq> 0 \<longrightarrow>
               wait_conn gen g None (replicate n Quiet @ Events ev # env) =
                 (case gen g' (Some (ev AND s)) of
                    StopIteration rv \<Rightarrow> Returned rv
                  | Yield (fileno', s') g'' \<Rightarrow> conn_loop gen g'' fileno' s' None env))"
    using conn_loop_quiets [of gen g' fileno s n "[]"]
      conn_loop_quiets [of gen g' fileno s n "Events ev # env"]
    by (simp add: wait_conn_def or_None_def conn_loop_end conn_loop_event)
  have a': "wait_conn_async gen g (Some 0) env = wait_conn_async gen g None env" for env
    by (simp add: wait_conn_async_def or_None_def)
  have b': "\<forall>m. wait_conn_async gen g None env \<noteq> Raised (OperationalError m)"
    using conn_async_loop_no_timeout [of gen _ _ _ env]
    by (auto simp: wait_conn_async_def or_None_def split: gen_step.splits)
  have c': "wait_conn_async gen g None (Quiet # env) = wait_conn_async gen g None env"
    by (auto simp: wait_conn_async_def or_None_def conn_async_loop_quiet split: gen_step.splits)
  have d': "gen g None = Yield (fileno, s) g' \<and> futures s \<noteq> [] \<longrightarrow>
         wait_conn_async gen g None (replicate n Quiet) = Blocked
         \<and> (filter (\<lambda>f. f AND ev \<noteq> 0) (futures s) \<noteq> [] \<longrightarrow>
               wait_conn_async gen g None (replicate n Quiet @ Events ev # env) =
                 (case gen g' (Some (merge_ready (filter (\<lambda>f. f AND ev \<noteq> 0) (futures s)))) of
                    StopIteration rv \<Rightarrow> Returned rv
                  | Yield (fileno', s') g'' \<Rightarrow>
                      conn_async_loop gen g'' fileno' s' None env))"
    using conn_async_loop_quiets [of gen g' fileno s n "[]"]
      conn_async_loop_quiets [of gen g' fileno s n "Events ev # env"]
    by (simp add: wait_conn_async_def or_None_def conn_async_loop_end conn_async_loop_event)
  show ?thesis
    unfolding a a' by (intro conjI refl b c d b' c' d')
qed

theorem zero_timeout_waits_witness:
  "wait_conn conn_read_once 0 (Some 0) [Quiet, Quiet] = Blocked
   \<and> wait_conn conn_read_once 0 (Some 0) [Quiet, Quiet, Events EVENT_READ]
       = Returned (Some EVENT_READ)
   \<and> wait_conn_async conn_read_once 0 (Some 0) [Quiet, Quiet] = Blocked
   \<and> wait_conn_async conn_read_once 0 (Some 0) [Quiet, Quiet, Events EVENT_READ]
       = Returned (Some EVENT_READ)"
proof -
  have y: "conn_read_once 0 None = Yield (5, EVENT_READ) 1" by (simp add: conn_read_once_def)
  have r: "sel_register 5 EVENT_READ = None"
    by (simp add: sel_register_def EVENT_READ_def EVENT_WRITE_def)
  have f: "futures EVENT_READ = [EVENT_READ]"
    by (simp add: futures_def EVENT_READ_def EVENT_WRITE_def)
  have e: "EVENT_READ AND EVENT_READ = EVENT_READ" "EVENT_READ \<noteq> 0"
    by (simp_all add: EVENT_READ_def)
  have q: "replicate (Suc (Suc 0)) Quiet = [Quiet, Quiet]" by simp
  have m: "merge_ready [EVENT_READ] = EVENT_READ" by (simp add: merge_ready_def)
  have s: "conn_read_once 1 (Some EVENT_READ) = StopIteration (Some EVENT_READ)"
    by (simp add: conn_read_once_def)
  note z = zero_timeout_waits [where gen = conn_read_once and g = 0 and fileno = 5
      and s = EVENT_READ and g' = 1 and n = "Suc (Suc 0)" and ev = EVENT_READ and env = "[]"]
  from z [THEN conjunct2, THEN conjunct2, THEN conjunct2, THEN conjunct1] y r e q s
  have w: "wait_conn conn_read_once 0 (Some 0) [Quiet, Quiet] = Blocked
           \<and> wait_conn conn_read_once 0 (Some 0) [Quiet, Quiet, Events EVENT_READ]
               = Returned (Some EVENT_READ)"
    by simp
  from z [THEN conjunct2, THEN conjunct2, THEN conjunct2, THEN conjunct2, THEN conjunct2,
      THEN conjunct2, THEN conjunct2] y f e q s m
  have "wait_conn_async conn_read_once 0 (Some 0) [Quiet, Quiet] = Blocked
           \<and> wait_conn_async conn_read_once 0 (Some 0) [Quiet, Quiet, Events EVENT_READ]
               = Returned (Some EVENT_READ)"
    by simp
  with w show ?thesis by simp
qed

end
